theory Spec2Isabelle
  imports Complex_Main
begin

section \<open>Expected number of rolls of a snakes-and-ladders board: the model\<close>

text \<open>
  The program \<^verbatim>\<open>main.py\<close> has three functions: \<^verbatim>\<open>get_probabilities\<close> builds the
  table of transition probabilities of a board, \<^verbatim>\<open>make_matrices\<close> turns the table into
  the linear system \<open>A \<cdot> X = B\<close>, and \<^verbatim>\<open>solve\<close> runs both and hands the system to
  \<^verbatim>\<open>numpy.linalg.solve\<close>.

  Tiles, sizes and rolls are Python integers: \<^typ>\<open>int\<close>.  Probabilities are Python
  floats in the program; here they are rationals, that is, the arithmetic of the program
  is read as exact arithmetic.  A dictionary is a map; the dictionary of snadders, an
  input, is given by its list of items (a Python dictionary is finite).
\<close>

subsection \<open>Outcomes of a call\<close>

text \<open>
  The exceptions the three functions can raise.  \<open>KeyError k\<close> is the failed lookup of
  the key \<open>k\<close> in the table of probabilities.
\<close>

datatype error = KeyError "int \<times> int" | IndexError | ValueError | LinAlgError

text \<open>
  A call either returns a value (\<open>Some (Inr v)\<close>), raises (\<open>Some (Inl e)\<close>) or does not
  return at all (\<open>None\<close>): the \<^verbatim>\<open>while\<close> loop of \<^verbatim>\<open>get_probabilities\<close> may run forever.
\<close>

type_synonym 'a outcome = "(error + 'a) option"

type_synonym table = "int \<times> int \<rightharpoonup> rat"

text \<open>
  A \<^verbatim>\<open>for\<close> loop over the values \<open>xs\<close>, with the loop's state passed along; it stops at
  the first iteration that raises or does not return.
\<close>

fun for_loop :: "('s \<Rightarrow> 'x \<Rightarrow> 's outcome) \<Rightarrow> 'x list \<Rightarrow> 's \<Rightarrow> 's outcome" where
  "for_loop body [] s = Some (Inr s)"
| "for_loop body (x # xs) s =
    (case body s x of
       None \<Rightarrow> None
     | Some (Inl e) \<Rightarrow> Some (Inl e)
     | Some (Inr s') \<Rightarrow> for_loop body xs s')"

subsection \<open>The table of transition probabilities\<close>

text \<open>
  \<^verbatim>\<open>while end in snadders: end = snadders[end]\<close>.  The loop is not bounded, so the
  function is partial: \<open>None\<close> is the loop that never ends.
\<close>

partial_function (option) follow :: "(int \<rightharpoonup> int) \<Rightarrow> int \<Rightarrow> int option" where
  "follow snadders tile =
    (case snadders tile of
       None \<Rightarrow> Some tile
     | Some dest \<Rightarrow> follow snadders dest)"

declare follow.simps [code]

text \<open>\<^verbatim>\<open>if end in snadders: end = snadders[end]\<close>.\<close>

definition jump_once :: "(int \<rightharpoonup> int) \<Rightarrow> int \<Rightarrow> int" where
  "jump_once snadders tile = (case snadders tile of None \<Rightarrow> tile | Some dest \<Rightarrow> dest)"

text \<open>Lines 49 to 54: the snadders are crossed transitively, or once.\<close>

definition resolve :: "(int \<rightharpoonup> int) \<Rightarrow> bool \<Rightarrow> int \<Rightarrow> int option" where
  "resolve snadders transitive tile =
    (if transitive then follow snadders tile else Some (jump_once snadders tile))"

text \<open>Lines 58 to 62: a roll past the end tile stays on \<open>idx\<close> or wins.\<close>

definition overshoot :: "int \<Rightarrow> bool \<Rightarrow> int \<Rightarrow> int \<Rightarrow> int" where
  "overshoot sz exact idx tile =
    (if tile > sz then (if exact then idx else sz) else tile)"

text \<open>
  Line 64, \<^verbatim>\<open>result[idx, end] += 1.0 / dice_size\<close>: the entry is read first, and a key
  that is not in the dictionary raises \<^verbatim>\<open>KeyError\<close>.  The line runs inside the loop over
  \<^verbatim>\<open>range(1, dice_size + 1)\<close>, so \<open>dice_size\<close> is positive there and the division is
  defined.
\<close>

definition add_mass :: "table \<Rightarrow> int \<times> int \<Rightarrow> int \<Rightarrow> error + table" where
  "add_mass result key dice_size =
    (case result key of
       None \<Rightarrow> Inl (KeyError key)
     | Some v \<Rightarrow> Inr (result(key \<mapsto> v + 1 / of_int dice_size)))"

text \<open>The body of the inner loop, lines 45 to 64.\<close>

definition roll_step ::
  "int \<Rightarrow> (int \<rightharpoonup> int) \<Rightarrow> int \<Rightarrow> bool \<Rightarrow> bool \<Rightarrow> int \<Rightarrow> table \<Rightarrow> int \<Rightarrow> table outcome" where
  "roll_step sz snadders dice_size transitive exact idx result roll =
    (case resolve snadders transitive (idx + roll) of
       None \<Rightarrow> None
     | Some tile \<Rightarrow> Some (add_mass result (idx, overshoot sz exact idx tile) dice_size))"

text \<open>
  Line 35: \<^verbatim>\<open>{(i, j): 0.0 for i in range(size + 1) for j in range(size + 1)}\<close>.
\<close>

definition init_table :: "int \<Rightarrow> table" where
  "init_table sz = map_of (concat (map (\<lambda>i. map (\<lambda>j. ((i, j), 0)) [0..sz]) [0..sz]))"

text \<open>Line 31: \<^verbatim>\<open>snadders = snadders or {}\<close>; \<open>None\<close> and the empty dictionary are both falsy.\<close>

definition snadders_or_empty :: "(int \<times> int) list option \<Rightarrow> (int \<rightharpoonup> int)" where
  "snadders_or_empty snadders = (case snadders of None \<Rightarrow> Map.empty | Some items \<Rightarrow> map_of items)"

definition get_probabilities ::
  "int \<Rightarrow> (int \<times> int) list option \<Rightarrow> int \<Rightarrow> bool \<Rightarrow> bool \<Rightarrow> table outcome" where
  "get_probabilities sz snadders dice_size transitive exact =
    for_loop
      (\<lambda>result idx.
         for_loop (roll_step sz (snadders_or_empty snadders) dice_size transitive exact idx)
           [1..dice_size] result)
      [0..sz - 1] (init_table sz)"

text \<open>The defaults of the signature of \<^verbatim>\<open>get_probabilities\<close>, line 8.\<close>

definition default_dice_size :: int where "default_dice_size = 6"
definition default_transitive :: bool where "default_transitive = False"
definition default_exact :: bool where "default_exact = False"

subsection \<open>The linear system\<close>

text \<open>
  A matrix is the list of its rows, a column vector the list of its entries.

  Lines 84 to 90.  \<^verbatim>\<open>np.zeros\<close> refuses a negative dimension with \<^verbatim>\<open>ValueError\<close>, and
  \<^verbatim>\<open>probs[i, j]\<close> raises \<^verbatim>\<open>KeyError\<close> on a key that is not in the table.
\<close>

definition matrix_entry :: "table \<Rightarrow> int \<Rightarrow> int \<Rightarrow> error + rat" where
  "matrix_entry probs i j =
    (case probs (i, j) of
       None \<Rightarrow> Inl (KeyError (i, j))
     | Some v \<Rightarrow> Inr (if i = j then v - 1 else v))"

fun collect :: "('x \<Rightarrow> error + 'y) \<Rightarrow> 'x list \<Rightarrow> error + 'y list" where
  "collect f [] = Inr []"
| "collect f (x # xs) =
    (case f x of
       Inl e \<Rightarrow> Inl e
     | Inr y \<Rightarrow> (case collect f xs of Inl e \<Rightarrow> Inl e | Inr ys \<Rightarrow> Inr (y # ys)))"

text \<open>
  Lines 92 and 93: \<^verbatim>\<open>b\<close> has \<open>size + 1\<close> entries \<open>-1\<close>, then \<^verbatim>\<open>b[size] = 0\<close>; for
  \<open>size = -1\<close> the vector is empty and the index \<open>-1\<close> is out of bounds.
\<close>

definition make_matrices :: "table \<Rightarrow> int \<Rightarrow> error + rat list list \<times> rat list" where
  "make_matrices probs sz =
    (if sz + 1 < 0 then Inl ValueError
     else case collect (\<lambda>i. collect (matrix_entry probs i) [0..sz]) [0..sz] of
       Inl e \<Rightarrow> Inl e
     | Inr a \<Rightarrow>
         (if sz < 0 then Inl IndexError
          else Inr (a, (replicate (nat (sz + 1)) (- 1))[nat sz := 0])))"

subsection \<open>Solving\<close>

text \<open>
  \<^verbatim>\<open>numpy.linalg.solve\<close> is not part of the program: it is a parameter of the model, a
  function from the matrix and the right-hand side to the solution or an error.  What is
  asked of it, where a theorem needs it, is that its answer \<open>e\<close> solves the system:
  \<open>A \<cdot> e = B\<close> in exact arithmetic.
\<close>

type_synonym solver = "rat list list \<Rightarrow> rat list \<Rightarrow> error + rat list"

definition dot :: "rat list \<Rightarrow> rat list \<Rightarrow> rat" where
  "dot row e = sum_list (map (\<lambda>(x, y). x * y) (zip row e))"

definition is_solution :: "rat list list \<Rightarrow> rat list \<Rightarrow> rat list \<Rightarrow> bool" where
  "is_solution a b e \<longleftrightarrow> length e = length a \<and> map (\<lambda>row. dot row e) a = b"

definition solves :: "solver \<Rightarrow> rat list list \<Rightarrow> rat list \<Rightarrow> bool" where
  "solves linalg_solve a b =
    (case linalg_solve a b of Inl err \<Rightarrow> False | Inr e \<Rightarrow> is_solution a b e)"

text \<open>
  The first two statements of \<^verbatim>\<open>solve\<close>, lines 106 and 107: the system of the board.
  \<^verbatim>\<open>get_probabilities\<close> is called with three arguments, the two flags take their
  defaults.
\<close>

definition linear_system ::
  "int \<Rightarrow> (int \<times> int) list option \<Rightarrow> int \<Rightarrow> (rat list list \<times> rat list) outcome" where
  "linear_system board_size snadders dice_size =
    (case get_probabilities board_size snadders dice_size default_transitive default_exact of
       None \<Rightarrow> None
     | Some (Inl err) \<Rightarrow> Some (Inl err)
     | Some (Inr probs) \<Rightarrow> Some (make_matrices probs board_size))"

text \<open>
  Lines 108 and 110: the system is solved and \<^verbatim>\<open>float(solution[0])\<close> returned; the index
  \<open>0\<close> of an empty solution is out of bounds.
\<close>

definition first_entry :: "rat list \<Rightarrow> error + rat" where
  "first_entry solution = (case solution of [] \<Rightarrow> Inl IndexError | x # xs \<Rightarrow> Inr x)"

definition solve :: "solver \<Rightarrow> int \<Rightarrow> (int \<times> int) list option \<Rightarrow> int \<Rightarrow> rat outcome" where
  "solve linalg_solve board_size snadders dice_size =
    (case linear_system board_size snadders dice_size of
       None \<Rightarrow> None
     | Some (Inl err) \<Rightarrow> Some (Inl err)
     | Some (Inr (a, b)) \<Rightarrow>
         Some (case linalg_solve a b of
                 Inl err \<Rightarrow> Inl err
               | Inr solution \<Rightarrow> first_entry solution))"

section \<open>What the table and the system are checked against\<close>

text \<open>
  The tile a roll \<open>r\<close> ends on from the tile \<open>s\<close>: the raw landing tile \<open>s + r\<close>, then
  the snadders, then the overshoot policy; \<open>None\<close> when the snadders are followed forever.
\<close>

definition landing :: "int \<Rightarrow> (int \<rightharpoonup> int) \<Rightarrow> bool \<Rightarrow> bool \<Rightarrow> int \<Rightarrow> int \<Rightarrow> int option" where
  "landing sz snadders transitive exact s r =
    map_option (overshoot sz exact s) (resolve snadders transitive (s + r))"

text \<open>The mass of the entry \<open>(s, t)\<close>: one share \<open>1 / dice_size\<close> for each roll that lands on \<open>t\<close>.\<close>

definition mass :: "int \<Rightarrow> (int \<rightharpoonup> int) \<Rightarrow> int \<Rightarrow> bool \<Rightarrow> bool \<Rightarrow> int \<Rightarrow> int \<Rightarrow> rat" where
  "mass sz snadders dice_size transitive exact s t =
    (\<Sum>r\<leftarrow>[1..dice_size].
       if landing sz snadders transitive exact s r = Some t then 1 / of_int dice_size else 0)"

text \<open>
  The table as the specification describes it: the keys are the pairs of tiles of
  \<open>0..sz\<close>, the rows \<open>0..sz - 1\<close> hold the masses, the row of the end tile is zero.
\<close>

definition transition_table :: "int \<Rightarrow> (int \<rightharpoonup> int) \<Rightarrow> int \<Rightarrow> bool \<Rightarrow> bool \<Rightarrow> table" where
  "transition_table sz snadders dice_size transitive exact =
    (\<lambda>(s, t).
       if 0 \<le> s \<and> s \<le> sz \<and> 0 \<le> t \<and> t \<le> sz
       then Some (if s < sz then mass sz snadders dice_size transitive exact s t else 0)
       else None)"

text \<open>The sum of the row \<open>s\<close> of a table.\<close>

definition row_sum :: "table \<Rightarrow> int \<Rightarrow> int \<Rightarrow> rat" where
  "row_sum probs sz s = (\<Sum>t\<leftarrow>[0..sz]. case probs (s, t) of None \<Rightarrow> 0 | Some p \<Rightarrow> p)"

text \<open>
  The two nested loops of \<^verbatim>\<open>get_probabilities\<close> are one loop over the pairs of a source
  tile and a roll, in the order of \<open>all_rolls\<close>, whose body adds a share to the key of
  the pair.
\<close>

definition step :: "int \<Rightarrow> ('x \<Rightarrow> (int \<times> int) option) \<Rightarrow> table \<Rightarrow> 'x \<Rightarrow> table outcome" where
  "step dice_size key result x =
    (case key x of None \<Rightarrow> None | Some k \<Rightarrow> Some (add_mass result k dice_size))"

definition landing_key ::
  "int \<Rightarrow> (int \<rightharpoonup> int) \<Rightarrow> bool \<Rightarrow> bool \<Rightarrow> int \<times> int \<Rightarrow> (int \<times> int) option" where
  "landing_key sz snadders transitive exact =
    (\<lambda>(s, r). map_option (Pair s) (landing sz snadders transitive exact s r))"

definition all_rolls :: "int \<Rightarrow> int \<Rightarrow> (int \<times> int) list" where
  "all_rolls sz dice_size = concat (map (\<lambda>i. map (Pair i) [1..dice_size]) [0..sz - 1])"

text \<open>
  Chains of snadders.  \<open>hops m n t\<close> is the tile reached from \<open>t\<close> by \<open>n\<close> snadders, each
  starting where the one before ends.  A tile is on a cycle when some positive number of
  hops leads back to it, and a cycle is reachable from a tile when hops from it lead to a
  tile on a cycle.
\<close>

fun hops :: "(int \<rightharpoonup> int) \<Rightarrow> nat \<Rightarrow> int \<Rightarrow> int option" where
  "hops m 0 t = Some t"
| "hops m (Suc n) t = (case m t of None \<Rightarrow> None | Some dest \<Rightarrow> hops m n dest)"

definition on_cycle :: "(int \<rightharpoonup> int) \<Rightarrow> int \<Rightarrow> bool" where
  "on_cycle m c \<longleftrightarrow> (\<exists>n>0. hops m n c = Some c)"

definition cycle_reachable :: "(int \<rightharpoonup> int) \<Rightarrow> int \<Rightarrow> bool" where
  "cycle_reachable m t \<longleftrightarrow> (\<exists>k c. hops m k t = Some c \<and> on_cycle m c)"

definition acyclic_snadders :: "(int \<rightharpoonup> int) \<Rightarrow> bool" where
  "acyclic_snadders m \<longleftrightarrow> \<not> (\<exists>c. on_cycle m c)"

text \<open>
  The snadders the specification allows on a board of size \<open>sz\<close>: sources and
  destinations in \<open>1..sz - 1\<close>.
\<close>

definition snadders_in_range :: "int \<Rightarrow> (int \<times> int) list option \<Rightarrow> bool" where
  "snadders_in_range sz snadders =
    (case snadders of
       None \<Rightarrow> True
     | Some items \<Rightarrow> list_all (\<lambda>(k, v). 1 \<le> k \<and> k < sz \<and> 1 \<le> v \<and> v < sz) items)"

text \<open>
  The system as the specification describes it: the coefficient of the row \<open>i\<close> and the
  column \<open>j\<close> is the probability of the table, less 1 on the diagonal, and the
  right-hand side is \<open>-1\<close> but for the end tile, where it is \<open>0\<close>.
\<close>

definition coefficient :: "table \<Rightarrow> int \<Rightarrow> int \<Rightarrow> rat" where
  "coefficient probs i j =
    (case probs (i, j) of None \<Rightarrow> 0 | Some p \<Rightarrow> if i = j then p - 1 else p)"

definition right_hand_side :: "int \<Rightarrow> int \<Rightarrow> rat" where
  "right_hand_side sz i = (if i = sz then 0 else - 1)"

text \<open>
  The expected number of rolls of a board without snadders where overshooting wins, from a
  tile \<open>n\<close> steps before the end tile, by the recurrence of the docstring of
  \<^verbatim>\<open>make_matrices\<close>: one roll, then the mean over the faces of the die of what is left.  It is
  used to exhibit a solution of the system.
\<close>

fun expected_rolls :: "int \<Rightarrow> nat \<Rightarrow> rat" where
  "expected_rolls d n =
    (if n = 0 then 0
     else 1 + (\<Sum>r\<leftarrow>[1..d]. expected_rolls d (n - nat r) / of_int d))"

declare expected_rolls.simps [simp del]

section \<open>The loops\<close>

lemma for_loop_append:
  "for_loop body (xs @ ys) s =
    (case for_loop body xs s of
       None \<Rightarrow> None
     | Some (Inl e) \<Rightarrow> Some (Inl e)
     | Some (Inr s') \<Rightarrow> for_loop body ys s')"
  by (induction xs arbitrary: s) (auto split: option.splits sum.splits)

lemma for_loop_map:
  "for_loop body (map f xs) s = for_loop (\<lambda>s x. body s (f x)) xs s"
  by (induction xs arbitrary: s) (auto split: option.splits sum.splits)

lemma for_loop_nested:
  "for_loop (\<lambda>s i. for_loop (\<lambda>s r. body s (i, r)) rs s) is s0 =
   for_loop body (concat (map (\<lambda>i. map (Pair i) rs) is)) s0"
proof (induction "is" arbitrary: s0)
  case Nil
  show ?case by simp
next
  case (Cons i "is")
  show ?case
    by (simp add: for_loop_append for_loop_map Cons.IH split: option.splits sum.splits)
qed

lemma step_Cons_diverges:
  "key x = None \<Longrightarrow> for_loop (step d key) (x # xs) result = None"
  by (simp add: step_def)

lemma step_Cons_raises:
  "key x = Some k \<Longrightarrow> result k = None \<Longrightarrow>
   for_loop (step d key) (x # xs) result = Some (Inl (KeyError k))"
  by (simp add: step_def add_mass_def)

lemma step_Cons_continues:
  "key x = Some k \<Longrightarrow> result k = Some v \<Longrightarrow>
   for_loop (step d key) (x # xs) result =
   for_loop (step d key) xs (result(k \<mapsto> v + 1 / of_int d))"
  by (simp add: step_def add_mass_def)

lemma step_accumulates:
  assumes "\<forall>x\<in>set xs. \<exists>k. key x = Some k \<and> k \<in> dom result"
  shows "for_loop (step d key) xs result =
    Some (Inr (\<lambda>k. map_option
      (\<lambda>v. v + (\<Sum>x\<leftarrow>xs. if key x = Some k then 1 / of_int d else 0)) (result k)))"
  using assms
proof (induction xs arbitrary: result)
  case Nil
  have "(\<lambda>k. map_option (\<lambda>v. v) (result k)) = result"
    by (rule ext) (simp add: option.map_ident)
  then show ?case by simp
next
  case (Cons x xs)
  from Cons.prems obtain k0 v0 where k0: "key x = Some k0" "result k0 = Some v0"
    by auto
  let ?r = "result(k0 \<mapsto> v0 + 1 / of_int d)"
  have dom: "dom ?r = dom result" using k0 by auto
  have "\<forall>x\<in>set xs. \<exists>k. key x = Some k \<and> k \<in> dom ?r"
    using Cons.prems unfolding dom by simp
  then have "for_loop (step d key) xs ?r =
    Some (Inr (\<lambda>k. map_option
      (\<lambda>v. v + (\<Sum>x\<leftarrow>xs. if key x = Some k then 1 / of_int d else 0)) (?r k)))"
    by (rule Cons.IH)
  moreover have "for_loop (step d key) (x # xs) result = for_loop (step d key) xs ?r"
    using k0 by (rule step_Cons_continues)
  moreover have "(\<lambda>k. map_option
      (\<lambda>v. v + (\<Sum>x\<leftarrow>xs. if key x = Some k then 1 / of_int d else 0)) (?r k)) =
    (\<lambda>k. map_option
      (\<lambda>v. v + (\<Sum>x\<leftarrow>x # xs. if key x = Some k then 1 / of_int d else 0)) (result k))"
    using k0 by (auto simp: fun_eq_iff)
  ultimately show ?case by simp
qed

lemma step_diverges:
  "for_loop (step d key) xs result = None \<Longrightarrow> \<exists>x\<in>set xs. key x = None"
proof (induction xs arbitrary: result)
  case Nil
  then show ?case by simp
next
  case (Cons x xs)
  show ?case
  proof (cases "key x")
    case None
    then show ?thesis by simp
  next
    case (Some k)
    note k = this
    show ?thesis
    proof (cases "result k")
      case None
      with k Cons.prems show ?thesis by (simp add: step_Cons_raises del: for_loop.simps)
    next
      case (Some v)
      with k Cons.prems Cons.IH show ?thesis by (simp add: step_Cons_continues del: for_loop.simps)
    qed
  qed
qed

lemma step_raises:
  "for_loop (step d key) xs result = Some (Inl e) \<Longrightarrow>
   \<exists>x\<in>set xs. \<exists>k. key x = Some k \<and> k \<notin> dom result \<and> e = KeyError k"
proof (induction xs arbitrary: result)
  case Nil
  then show ?case by simp
next
  case (Cons x xs)
  show ?case
  proof (cases "key x")
    case None
    with Cons.prems show ?thesis by (simp add: step_Cons_diverges del: for_loop.simps)
  next
    case (Some k)
    note k = this
    show ?thesis
    proof (cases "result k")
      case None
      with k Cons.prems have "e = KeyError k" by (simp add: step_Cons_raises del: for_loop.simps)
      with k None show ?thesis by (intro bexI[of _ x] exI[of _ k]) (auto simp: dom_def)
    next
      case (Some v)
      let ?r = "result(k \<mapsto> v + 1 / of_int d)"
      have dom: "dom ?r = dom result" using Some by auto
      from Cons.prems k Some
      have "for_loop (step d key) xs ?r = Some (Inl e)"
        by (simp add: step_Cons_continues del: for_loop.simps)
      from Cons.IH[OF this] show ?thesis unfolding dom by auto
    qed
  qed
qed

lemma step_returns:
  "for_loop (step d key) xs result = Some (Inr result') \<Longrightarrow>
   \<forall>x\<in>set xs. \<exists>k. key x = Some k \<and> k \<in> dom result"
proof (induction xs arbitrary: result)
  case Nil
  then show ?case by simp
next
  case (Cons x xs)
  show ?case
  proof (cases "key x")
    case None
    with Cons.prems show ?thesis by (simp add: step_Cons_diverges del: for_loop.simps)
  next
    case (Some k)
    note k = this
    show ?thesis
    proof (cases "result k")
      case None
      with k Cons.prems show ?thesis by (simp add: step_Cons_raises del: for_loop.simps)
    next
      case (Some v)
      let ?r = "result(k \<mapsto> v + 1 / of_int d)"
      have dom: "dom ?r = dom result" using Some by auto
      from Cons.prems k Some
      have "for_loop (step d key) xs ?r = Some (Inr result')"
        by (simp add: step_Cons_continues del: for_loop.simps)
      from Cons.IH[OF this] have "\<forall>x\<in>set xs. \<exists>k. key x = Some k \<and> k \<in> dom result"
        unfolding dom .
      moreover have "\<exists>k'. key x = Some k' \<and> k' \<in> dom result"
        using k Some by (intro exI[of _ k]) (auto simp: dom_def)
      ultimately show ?thesis by simp
    qed
  qed
qed

section \<open>The table that \<^verbatim>\<open>get_probabilities\<close> returns\<close>

lemma roll_step_step:
  "roll_step sz sn d tr ex idx result roll = step d (landing_key sz sn tr ex) result (idx, roll)"
  by (simp add: roll_step_def step_def landing_key_def landing_def split: option.splits)

lemma get_probabilities_step:
  "get_probabilities sz snadders d tr ex =
   for_loop (step d (landing_key sz (snadders_or_empty snadders) tr ex)) (all_rolls sz d)
     (init_table sz)"
  unfolding get_probabilities_def all_rolls_def roll_step_step
  by (rule for_loop_nested)

lemma set_all_rolls: "set (all_rolls sz d) = {0..<sz} \<times> {1..d}"
  by (auto simp: all_rolls_def)

lemma init_table_eq:
  "init_table sz = (\<lambda>(i, j). if 0 \<le> i \<and> i \<le> sz \<and> 0 \<le> j \<and> j \<le> sz then Some 0 else None)"
proof (rule ext, clarify)
  fix i j
  let ?l = "concat (map (\<lambda>i. map (\<lambda>j. ((i, j), 0::rat)) [0..sz]) [0..sz])"
  have fst: "fst ` set ?l = {0..sz} \<times> {0..sz}" by (auto simp: image_iff)
  have snd: "\<And>k v. (k, v) \<in> set ?l \<Longrightarrow> v = 0" by auto
  show "init_table sz (i, j) = (if 0 \<le> i \<and> i \<le> sz \<and> 0 \<le> j \<and> j \<le> sz then Some 0 else None)"
  proof (cases "(i, j) \<in> {0..sz} \<times> {0..sz}")
    case True
    then have "(i, j) \<in> fst ` set ?l" unfolding fst .
    then obtain v where v: "map_of ?l (i, j) = Some v"
      by (metis map_of_eq_None_iff not_None_eq)
    from map_of_SomeD[OF v] have "v = 0" by (rule snd)
    with v True show ?thesis by (simp add: init_table_def)
  next
    case False
    then have "(i, j) \<notin> fst ` set ?l" unfolding fst .
    then have "map_of ?l (i, j) = None" by (metis map_of_eq_None_iff)
    with False show ?thesis by (auto simp: init_table_def)
  qed
qed

lemma dom_init_table: "dom (init_table sz) = {0..sz} \<times> {0..sz}"
  by (auto simp: init_table_eq split: if_splits)

lemma sum_list_pairs:
  fixes f :: "'a \<times> 'b \<Rightarrow> rat"
  shows "(\<Sum>x\<leftarrow>concat (map (\<lambda>i. map (Pair i) rs) is). f x) = (\<Sum>i\<leftarrow>is. \<Sum>r\<leftarrow>rs. f (i, r))"
  by (induction "is") (simp_all add: comp_def)

lemma sum_list_all_rolls:
  fixes f :: "int \<times> int \<Rightarrow> rat"
  shows "(\<Sum>x\<leftarrow>all_rolls sz d. f x) = (\<Sum>i\<leftarrow>[0..sz - 1]. \<Sum>r\<leftarrow>[1..d]. f (i, r))"
  unfolding all_rolls_def by (rule sum_list_pairs)

lemma sum_list_only:
  fixes g :: "int \<Rightarrow> rat"
  shows "(\<Sum>i\<leftarrow>[0..sz - 1]. if i = s then g i else 0) = (if 0 \<le> s \<and> s < sz then g s else 0)"
proof -
  have "(\<Sum>i\<leftarrow>[0..sz - 1]. if i = s then g i else 0) =
        (\<Sum>i\<in>set [0..sz - 1]. if i = s then g i else 0)"
    by (rule sum_list_distinct_conv_sum_set) simp
  also have "\<dots> = (if s \<in> set [0..sz - 1] then g s else 0)"
    by (simp add: sum.delta)
  finally show ?thesis by auto
qed

lemma mass_at_key:
  "(\<Sum>x\<leftarrow>all_rolls sz d.
      if landing_key sz sn tr ex x = Some (s, t) then 1 / of_int d else 0) =
   (if 0 \<le> s \<and> s < sz then mass sz sn d tr ex s t else 0)"
proof -
  have "(\<Sum>r\<leftarrow>[1..d]. if landing_key sz sn tr ex (i, r) = Some (s, t) then 1 / of_int d else 0) =
        (if i = s then mass sz sn d tr ex i t else 0)" for i
    unfolding mass_def landing_key_def
    by (cases "i = s") (auto intro!: arg_cong[where f = sum_list])
  then show ?thesis
    by (simp add: sum_list_all_rolls sum_list_only)
qed

lemma get_probabilities_returns:
  assumes "\<forall>s\<in>{0..<sz}. \<forall>r\<in>{1..d}. \<exists>t\<ge>0. landing sz (snadders_or_empty snadders) tr ex s r = Some t"
  shows "get_probabilities sz snadders d tr ex =
    Some (Inr (transition_table sz (snadders_or_empty snadders) d tr ex))"
proof -
  let ?sn = "snadders_or_empty snadders"
  have le: "t \<le> sz" if "landing sz ?sn tr ex s r = Some t" "s < sz" for s r t
    using that by (auto simp: landing_def overshoot_def split: if_splits)
  have "\<forall>x\<in>set (all_rolls sz d). \<exists>k. landing_key sz ?sn tr ex x = Some k \<and> k \<in> dom (init_table sz)"
  proof
    fix x assume "x \<in> set (all_rolls sz d)"
    then obtain s r where x: "x = (s, r)" "0 \<le> s" "s < sz" "1 \<le> r" "r \<le> d"
      by (auto simp: set_all_rolls)
    then have "s \<in> {0..<sz}" "r \<in> {1..d}" by simp_all
    with assms have "\<exists>t\<ge>0. landing sz ?sn tr ex s r = Some t" by blast
    then obtain t where t: "0 \<le> t" "landing sz ?sn tr ex s r = Some t" by blast
    with le x have "t \<le> sz" by blast
    with t x show "\<exists>k. landing_key sz ?sn tr ex x = Some k \<and> k \<in> dom (init_table sz)"
      by (intro exI[of _ "(s, t)"]) (simp add: landing_key_def dom_init_table)
  qed
  from step_accumulates[OF this]
  have "get_probabilities sz snadders d tr ex =
    Some (Inr (\<lambda>k. map_option
      (\<lambda>v. v + (\<Sum>x\<leftarrow>all_rolls sz d.
         if landing_key sz ?sn tr ex x = Some k then 1 / of_int d else 0)) (init_table sz k)))"
    by (simp only: get_probabilities_step)
  moreover have "(\<lambda>k. map_option
      (\<lambda>v. v + (\<Sum>x\<leftarrow>all_rolls sz d.
         if landing_key sz ?sn tr ex x = Some k then 1 / of_int d else 0)) (init_table sz k)) =
    transition_table sz ?sn d tr ex"
  proof (rule ext)
    fix k :: "int \<times> int"
    obtain s t where k: "k = (s, t)" by (cases k)
    show "map_option
      (\<lambda>v. v + (\<Sum>x\<leftarrow>all_rolls sz d.
         if landing_key sz ?sn tr ex x = Some k then 1 / of_int d else 0)) (init_table sz k) =
      transition_table sz ?sn d tr ex k"
      unfolding k mass_at_key by (simp add: init_table_eq transition_table_def)
  qed
  ultimately show ?thesis by simp
qed

section \<open>Following the snadders\<close>

lemma hops_add:
  "hops m (j + n) t = (case hops m j t of None \<Rightarrow> None | Some c \<Rightarrow> hops m n c)"
  by (induction j arbitrary: t) (auto split: option.splits)

lemma hops_prefix:
  assumes "hops m n t \<noteq> None" "j \<le> n"
  shows "hops m j t \<noteq> None"
proof -
  from assms(2) have "j + (n - j) = n" by simp
  with assms(1) have "hops m (j + (n - j)) t \<noteq> None" by simp
  then have "(case hops m j t of None \<Rightarrow> None | Some c \<Rightarrow> hops m (n - j) c) \<noteq> None"
    unfolding hops_add[of m j "n - j" t] .
  then show ?thesis by (cases "hops m j t") simp_all
qed

lemma follow_stops:
  "hops m k t = Some r \<Longrightarrow> m r = None \<Longrightarrow> follow m t = Some r"
proof (induction k arbitrary: t)
  case 0
  then show ?case by (subst follow.simps) simp
next
  case (Suc k)
  then obtain d where d: "m t = Some d" "hops m k d = Some r"
    by (auto split: option.splits)
  with Suc have "follow m d = Some r" by blast
  with d show ?case by (subst follow.simps) simp
qed

lemma follow_Some_hops:
  "follow m t = Some r \<Longrightarrow> \<exists>k. hops m k t = Some r \<and> m r = None"
proof (induction rule: follow.raw_induct[rotated 1, consumes 1])
  case (1 follow' m t r)
  show ?case
  proof (cases "m t")
    case None
    with 1(2) have "r = t" by simp
    with None have "hops m 0 t = Some r \<and> m r = None" by simp
    then show ?thesis by blast
  next
    case (Some d)
    with 1(2) have "follow' m d = Some r" by simp
    from 1(1)[OF this] obtain k where "hops m k d = Some r" "m r = None" by blast
    with Some have "hops m (Suc k) t = Some r \<and> m r = None" by simp
    then show ?thesis by blast
  qed
qed

lemma follow_None_hops:
  "follow m t = None \<Longrightarrow> \<exists>r. hops m k t = Some r \<and> follow m r = None"
proof (induction k arbitrary: t)
  case 0
  then show ?case by simp
next
  case (Suc k)
  from Suc.prems obtain d where d: "m t = Some d" "follow m d = None"
    by (subst (asm) follow.simps) (auto split: option.splits)
  from Suc.IH[OF d(2)] d(1) show ?case by simp
qed

lemma cycle_keeps_hopping:
  assumes "0 < n" "hops m n c = Some c"
  shows "hops m i c \<noteq> None"
proof (induction i rule: less_induct)
  case (less i)
  show ?case
  proof (cases "i \<le> n")
    case True
    have "hops m n c \<noteq> None" using assms(2) by simp
    then show ?thesis using True by (rule hops_prefix)
  next
    case False
    then have i: "n + (i - n) = i" by simp
    have "hops m (i - n) c \<noteq> None" using assms(1) False by (intro less.IH) simp
    then have "(case hops m n c of None \<Rightarrow> None | Some c' \<Rightarrow> hops m (i - n) c') \<noteq> None"
      unfolding assms(2) option.case .
    then have "hops m (n + (i - n)) c \<noteq> None"
      unfolding hops_add[of m n "i - n" c] .
    then show ?thesis unfolding i .
  qed
qed

lemma cycle_reachable_diverges:
  assumes "cycle_reachable m t"
  shows "follow m t = None"
proof (rule ccontr)
  assume "follow m t \<noteq> None"
  then obtain r where "follow m t = Some r" by blast
  then obtain k where k: "hops m k t = Some r" "m r = None"
    using follow_Some_hops by blast
  from assms obtain j c n where c: "hops m j t = Some c" "0 < n" "hops m n c = Some c"
    unfolding cycle_reachable_def on_cycle_def by blast
  have "hops m (Suc k) t \<noteq> None"
  proof (cases "Suc k \<le> j")
    case True
    have "hops m j t \<noteq> None" using c(1) by simp
    then show ?thesis using True by (rule hops_prefix)
  next
    case False
    then have eq: "j + (Suc k - j) = Suc k" by simp
    have "hops m (Suc k - j) c \<noteq> None"
      using c(2,3) by (rule cycle_keeps_hopping)
    then have "hops m (j + (Suc k - j)) t \<noteq> None"
      unfolding hops_add[of m j "Suc k - j" t] c(1) option.case .
    then show ?thesis unfolding eq .
  qed
  moreover have "hops m (k + 1) t = None"
    unfolding hops_add[of m k 1 t] k(1) option.case using k(2) by simp
  ultimately show False by simp
qed

lemma diverges_cycle_reachable:
  assumes "finite (dom m)" "follow m t = None"
  shows "cycle_reachable m t"
proof -
  define f where "f k = the (hops m k t)" for k
  have def: "hops m k t = Some (f k)" for k
    using follow_None_hops[OF assms(2), of k] by (auto simp: f_def)
  have "f k \<in> dom m" for k
  proof -
    have "hops m (k + 1) t = Some (f (k + 1))" by (rule def)
    then have "(case hops m k t of None \<Rightarrow> None | Some c \<Rightarrow> hops m 1 c) = Some (f (k + 1))"
      unfolding hops_add[of m k 1 t] .
    then have "hops m 1 (f k) = Some (f (k + 1))"
      unfolding def[of k] option.case .
    then show ?thesis by (auto split: option.splits)
  qed
  then have "range f \<subseteq> dom m" by blast
  with assms(1) have "finite (range f)" by (rule finite_subset[rotated])
  have "\<not> inj f"
  proof
    assume "inj f"
    with \<open>finite (range f)\<close> have "finite (UNIV :: nat set)" by (rule finite_imageD)
    then show False by simp
  qed
  then obtain a b where ab: "f a = f b" "a \<noteq> b" unfolding inj_def by blast
  define j where "j = min a b"
  define k where "k = max a b"
  have jk: "j < k" "f j = f k" using ab by (auto simp: j_def k_def min_def max_def)
  have "hops m (j + (k - j)) t = Some (f k)" using jk(1) def[of k] by simp
  then have "hops m (k - j) (f j) = Some (f j)"
    unfolding hops_add[of m j "k - j" t] def[of j] option.case jk(2) .
  with jk(1) have "on_cycle m (f j)" unfolding on_cycle_def by (intro exI[of _ "k - j"]) simp
  with def[of j] show ?thesis unfolding cycle_reachable_def by blast
qed

lemma follow_diverges_iff:
  "finite (dom m) \<Longrightarrow> follow m t = None \<longleftrightarrow> cycle_reachable m t"
  using cycle_reachable_diverges diverges_cycle_reachable by blast

lemma hops_in_ran:
  "hops m k t = Some r \<Longrightarrow> r = t \<or> r \<in> ran m"
proof (induction k arbitrary: t)
  case 0
  then show ?case by simp
next
  case (Suc k)
  then obtain d where d: "m t = Some d" "hops m k d = Some r"
    by (auto split: option.splits)
  from Suc.IH[OF d(2)] d(1) show ?case by (auto simp: ran_def)
qed

lemma follow_in_ran:
  "follow m t = Some r \<Longrightarrow> r = t \<or> r \<in> ran m"
  using follow_Some_hops hops_in_ran by blast

section \<open>Inputs on which a table is returned\<close>

lemma finite_dom_snadders: "finite (dom (snadders_or_empty snadders))"
  by (cases snadders) (simp_all add: snadders_or_empty_def finite_dom_map_of)

lemma snadders_in_rangeD:
  assumes "snadders_in_range sz snadders" "snadders_or_empty snadders k = Some v"
  shows "1 \<le> k \<and> k < sz \<and> 1 \<le> v \<and> v < sz"
proof (cases snadders)
  case None
  with assms(2) show ?thesis by (simp add: snadders_or_empty_def)
next
  case (Some items)
  with assms(2) have "(k, v) \<in> set items"
    by (auto simp: snadders_or_empty_def dest: map_of_SomeD)
  with assms(1) Some show ?thesis
    by (auto simp: snadders_in_range_def list_all_iff)
qed

lemma resolve_cases:
  assumes "resolve m tr t = Some t'"
  shows "t' = t \<or> t' \<in> ran m"
proof (cases tr)
  case True
  with assms show ?thesis by (auto simp: resolve_def dest: follow_in_ran)
next
  case False
  with assms show ?thesis
    by (auto simp: resolve_def jump_once_def ran_def split: option.splits)
qed

lemma resolve_returns:
  assumes "finite (dom m)" "tr \<longrightarrow> \<not> cycle_reachable m t"
  shows "\<exists>t'. resolve m tr t = Some t'"
proof (cases tr)
  case True
  with assms have "follow m t \<noteq> None" using diverges_cycle_reachable by blast
  with True show ?thesis by (auto simp: resolve_def)
next
  case False
  then show ?thesis by (simp add: resolve_def)
qed

lemma valid_resolves:
  assumes "snadders_in_range sz snadders"
    and "tr \<longrightarrow> \<not> cycle_reachable (snadders_or_empty snadders) (s + r)"
    and "0 \<le> s" "1 \<le> r"
  shows "\<exists>t\<ge>0. resolve (snadders_or_empty snadders) tr (s + r) = Some t"
proof -
  let ?m = "snadders_or_empty snadders"
  from resolve_returns[OF finite_dom_snadders assms(2)]
  obtain t where t: "resolve ?m tr (s + r) = Some t" by blast
  from resolve_cases[OF t] have "0 \<le> t"
  proof
    assume "t = s + r" with assms(3,4) show ?thesis by simp
  next
    assume "t \<in> ran ?m"
    then obtain k where "?m k = Some t" by (auto simp: ran_def)
    from snadders_in_rangeD[OF assms(1) this] show ?thesis by simp
  qed
  with t show ?thesis by blast
qed

lemma landing_of_resolve:
  assumes "resolve m tr (s + r) = Some t" "0 \<le> t" "0 \<le> s" "s < sz"
  shows "\<exists>t'. landing sz m tr ex s r = Some t' \<and> 0 \<le> t' \<and> t' \<le> sz"
  using assms by (auto simp: landing_def overshoot_def)

lemma returns_transition_table:
  assumes "\<forall>s\<in>{0..<sz}. \<forall>r\<in>{1..d}. \<exists>t\<ge>0. resolve (snadders_or_empty snadders) tr (s + r) = Some t"
  shows "get_probabilities sz snadders d tr ex =
    Some (Inr (transition_table sz (snadders_or_empty snadders) d tr ex))"
proof (rule get_probabilities_returns, intro ballI)
  fix s r assume s: "s \<in> {0..<sz}" and r: "r \<in> {1..d}"
  with assms obtain t where "0 \<le> t" "resolve (snadders_or_empty snadders) tr (s + r) = Some t"
    by blast
  from landing_of_resolve[OF this(2,1), of sz ex] s
  show "\<exists>t\<ge>0. landing sz (snadders_or_empty snadders) tr ex s r = Some t" by auto
qed

lemma all_rolls_Cons:
  "0 < sz \<Longrightarrow> 0 < d \<Longrightarrow> \<exists>rest. all_rolls sz d = (0, 1) # rest"
  unfolding all_rolls_def
  by (subst (2) upto_rec1, simp, subst upto_rec1, simp, simp)

lemma get_probabilities_diverges:
  assumes "get_probabilities sz snadders d tr ex = None"
  shows "tr \<and> (\<exists>s\<in>{0..<sz}. \<exists>r\<in>{1..d}. cycle_reachable (snadders_or_empty snadders) (s + r))"
proof -
  let ?m = "snadders_or_empty snadders"
  from assms obtain x where x: "x \<in> set (all_rolls sz d)" "landing_key sz ?m tr ex x = None"
    unfolding get_probabilities_step using step_diverges by blast
  obtain s r where sr: "x = (s, r)" by (cases x)
  with x(1) have mem: "s \<in> {0..<sz}" "r \<in> {1..d}" by (simp_all add: set_all_rolls)
  from x(2) sr have none: "resolve ?m tr (s + r) = None"
    by (simp add: landing_key_def landing_def)
  then have tr: tr by (auto simp: resolve_def split: if_splits)
  with none have "follow ?m (s + r) = None" by (simp add: resolve_def)
  with finite_dom_snadders have "cycle_reachable ?m (s + r)" by (rule diverges_cycle_reachable)
  with tr mem show ?thesis by blast
qed

lemma hops_increasing:
  assumes "\<forall>k v. m k = Some v \<longrightarrow> k < v"
  shows "hops m n c = Some c' \<Longrightarrow> c \<le> c' \<and> (0 < n \<longrightarrow> c < c')"
proof (induction n arbitrary: c)
  case 0
  then show ?case by simp
next
  case (Suc n)
  then obtain dest where dest: "m c = Some dest" "hops m n dest = Some c'"
    by (auto split: option.splits)
  from assms dest(1) have "c < dest" by blast
  moreover from Suc.IH[OF dest(2)] have "dest \<le> c'" by simp
  ultimately show ?case by simp
qed

lemma increasing_acyclic:
  assumes "\<forall>k v. m k = Some v \<longrightarrow> k < v"
  shows "acyclic_snadders m"
  unfolding acyclic_snadders_def on_cycle_def
  using hops_increasing[OF assms] by fastforce

lemma acyclic_not_reachable:
  "acyclic_snadders m \<Longrightarrow> \<not> cycle_reachable m t"
  unfolding acyclic_snadders_def cycle_reachable_def by blast

lemma get_probabilities_raises:
  assumes "get_probabilities sz snadders d tr ex = Some (Inl e)"
  shows "\<exists>s\<in>{0..<sz}. \<exists>r\<in>{1..d}. \<exists>t<0.
           resolve (snadders_or_empty snadders) tr (s + r) = Some t \<and> e = KeyError (s, t)"
proof -
  let ?m = "snadders_or_empty snadders"
  from step_raises[OF assms[unfolded get_probabilities_step]]
  obtain x k where x: "x \<in> set (all_rolls sz d)" "landing_key sz ?m tr ex x = Some k"
    "k \<notin> dom (init_table sz)" "e = KeyError k" by blast
  obtain s r where sr: "x = (s, r)" by (cases x)
  with x(1) have mem: "s \<in> {0..<sz}" "r \<in> {1..d}" by (simp_all add: set_all_rolls)
  from x(2) sr obtain t' where t': "landing sz ?m tr ex s r = Some t'" "k = (s, t')"
    by (auto simp: landing_key_def)
  then obtain t where t: "resolve ?m tr (s + r) = Some t" "t' = overshoot sz ex s t"
    by (auto simp: landing_def)
  from x(3) t'(2) mem(1) have "t' < 0 \<or> sz < t'" by (auto simp: dom_init_table)
  with t(2) mem(1) have "t < 0 \<and> t' = t" by (auto simp: overshoot_def split: if_splits)
  with t t' x(4) mem show ?thesis by blast
qed

lemma get_probabilities_returns_only:
  assumes "get_probabilities sz snadders d tr ex = Some (Inr P)"
  shows "\<forall>s\<in>{0..<sz}. \<forall>r\<in>{1..d}. \<exists>t\<ge>0. resolve (snadders_or_empty snadders) tr (s + r) = Some t"
proof (intro ballI)
  fix s r assume mem: "s \<in> {0..<sz}" "r \<in> {1..d}"
  let ?m = "snadders_or_empty snadders"
  from mem have "(s, r) \<in> set (all_rolls sz d)" by (simp add: set_all_rolls)
  with step_returns[OF assms[unfolded get_probabilities_step]]
  obtain k where k: "landing_key sz ?m tr ex (s, r) = Some k" "k \<in> dom (init_table sz)"
    by blast
  then obtain t' where t': "landing sz ?m tr ex s r = Some t'" "k = (s, t')"
    by (auto simp: landing_key_def)
  then obtain t where t: "resolve ?m tr (s + r) = Some t" "t' = overshoot sz ex s t"
    by (auto simp: landing_def)
  from k(2) t'(2) have "0 \<le> t'" by (simp add: dom_init_table)
  with t(2) mem(1) have "0 \<le> t" by (auto simp: overshoot_def split: if_splits)
  with t(1) show "\<exists>t\<ge>0. resolve ?m tr (s + r) = Some t" by blast
qed

lemma returned_table_unique:
  assumes "get_probabilities sz snadders d tr ex = Some (Inr P)"
  shows "P = transition_table sz (snadders_or_empty snadders) d tr ex"
  using returns_transition_table[OF get_probabilities_returns_only[OF assms], of ex] assms
  by simp

section \<open>Rows of the table\<close>

lemma sum_list_swap:
  fixes F :: "'a \<Rightarrow> 'b \<Rightarrow> rat"
  shows "(\<Sum>t\<leftarrow>xs. \<Sum>r\<leftarrow>ys. F t r) = (\<Sum>r\<leftarrow>ys. \<Sum>t\<leftarrow>xs. F t r)"
  by (induction xs) (simp_all add: sum_list_addf)

lemma sum_list_delta:
  fixes g :: "'a \<Rightarrow> rat"
  assumes "distinct xs"
  shows "(\<Sum>t\<leftarrow>xs. if c = t then g t else 0) = (if c \<in> set xs then g c else 0)"
  using assms by (induction xs) auto

lemma sum_list_at_landing:
  fixes f :: "int \<Rightarrow> rat"
  assumes "L = Some c" "0 \<le> c" "c \<le> sz"
  shows "(\<Sum>t\<leftarrow>[0..sz]. (if L = Some t then w else 0) * f t) = w * f c"
proof -
  have "(\<Sum>t\<leftarrow>[0..sz]. (if L = Some t then w else 0) * f t) =
        (\<Sum>t\<leftarrow>[0..sz]. if c = t then w * f t else 0)"
    using assms(1) by (intro arg_cong[where f = sum_list] map_cong) auto
  also have "\<dots> = (if c \<in> set [0..sz] then w * f c else 0)"
    by (rule sum_list_delta) simp
  finally show ?thesis using assms(2,3) by simp
qed

lemma mass_weighted:
  fixes f :: "int \<Rightarrow> rat"
  assumes "\<forall>r\<in>{1..d}. \<exists>t. landing sz m tr ex s r = Some t \<and> 0 \<le> t \<and> t \<le> sz"
  shows "(\<Sum>t\<leftarrow>[0..sz]. mass sz m d tr ex s t * f t) =
         (\<Sum>r\<leftarrow>[1..d]. f (the (landing sz m tr ex s r)) / of_int d)"
proof -
  have "(\<Sum>t\<leftarrow>[0..sz]. mass sz m d tr ex s t * f t) =
        (\<Sum>t\<leftarrow>[0..sz]. \<Sum>r\<leftarrow>[1..d].
           (if landing sz m tr ex s r = Some t then 1 / of_int d else 0) * f t)"
    unfolding mass_def by (simp add: sum_list_mult_const)
  also have "\<dots> = (\<Sum>r\<leftarrow>[1..d]. \<Sum>t\<leftarrow>[0..sz].
           (if landing sz m tr ex s r = Some t then 1 / of_int d else 0) * f t)"
    by (rule sum_list_swap)
  also have "\<dots> = (\<Sum>r\<leftarrow>[1..d]. f (the (landing sz m tr ex s r)) / of_int d)"
  proof (intro arg_cong[where f = sum_list] map_cong refl)
    fix r assume "r \<in> set [1..d]"
    then have "r \<in> {1..d}" by simp
    with assms have "\<exists>t. landing sz m tr ex s r = Some t \<and> 0 \<le> t \<and> t \<le> sz" by blast
    then obtain t where t: "landing sz m tr ex s r = Some t" "0 \<le> t" "t \<le> sz"
      by blast
    from sum_list_at_landing[OF this, of "1 / of_int d" f] t(1)
    show "(\<Sum>t\<leftarrow>[0..sz]. (if landing sz m tr ex s r = Some t then 1 / of_int d else 0) * f t) =
          f (the (landing sz m tr ex s r)) / of_int d"
      by simp
  qed
  finally show ?thesis .
qed

lemma sum_list_shares:
  "1 \<le> d \<Longrightarrow> (\<Sum>r\<leftarrow>[1..d]. 1 / rat_of_int d) = 1"
proof -
  assume d: "1 \<le> d"
  have "(\<Sum>r\<leftarrow>[1..d]. 1 / rat_of_int d) = of_nat (length [1..d]) * (1 / rat_of_int d)"
    by (simp add: sum_list_triv)
  also have "of_nat (length [1..d]) = rat_of_int d" using d by simp
  finally show ?thesis using d by simp
qed

lemma mass_nonneg: "0 \<le> mass sz m d tr ex s t"
  unfolding mass_def by (rule sum_list_nonneg) auto

lemma mass_le_one: "mass sz m d tr ex s t \<le> 1"
proof (cases "1 \<le> d")
  case True
  have "mass sz m d tr ex s t \<le> (\<Sum>r\<leftarrow>[1..d]. 1 / rat_of_int d)"
    unfolding mass_def using True by (intro sum_list_mono) auto
  with sum_list_shares[OF True] show ?thesis by simp
next
  case False
  then have "[1..d] = []" by simp
  then show ?thesis by (simp add: mass_def)
qed

lemma transition_table_row_sum:
  assumes "0 \<le> s" "s < sz" "1 \<le> d"
    and "\<forall>r\<in>{1..d}. \<exists>t. landing sz m tr ex s r = Some t \<and> 0 \<le> t \<and> t \<le> sz"
  shows "row_sum (transition_table sz m d tr ex) sz s = 1"
proof -
  have "row_sum (transition_table sz m d tr ex) sz s = (\<Sum>t\<leftarrow>[0..sz]. mass sz m d tr ex s t * 1)"
    unfolding row_sum_def using assms(1,2)
    by (intro arg_cong[where f = sum_list] map_cong) (auto simp: transition_table_def)
  also have "\<dots> = (\<Sum>r\<leftarrow>[1..d]. 1 / rat_of_int d)"
    by (rule mass_weighted[OF assms(4)])
  finally show ?thesis using sum_list_shares[OF assms(3)] by simp
qed

lemma transition_table_entry:
  assumes "0 \<le> s" "s \<le> sz" "0 \<le> t" "t \<le> sz"
  shows "\<exists>p. transition_table sz m d tr ex (s, t) = Some p \<and> 0 \<le> p \<and> p \<le> 1"
  using assms mass_nonneg[of sz m d tr ex s t] mass_le_one[of sz m d tr ex s t]
  by (simp add: transition_table_def)

lemma valid_table:
  assumes "snadders_in_range sz snadders"
    and "tr \<longrightarrow> \<not> (\<exists>s\<in>{0..<sz}. \<exists>r\<in>{1..d}. cycle_reachable (snadders_or_empty snadders) (s + r))"
  shows "\<forall>s\<in>{0..<sz}. \<forall>r\<in>{1..d}. \<exists>t\<ge>0. resolve (snadders_or_empty snadders) tr (s + r) = Some t"
proof (intro ballI)
  fix s r assume mem: "s \<in> {0..<sz}" "r \<in> {1..d}"
  with assms(2) have "tr \<longrightarrow> \<not> cycle_reachable (snadders_or_empty snadders) (s + r)" by blast
  from valid_resolves[OF assms(1) this] mem
  show "\<exists>t\<ge>0. resolve (snadders_or_empty snadders) tr (s + r) = Some t" by simp
qed

section \<open>The matrices that \<^verbatim>\<open>make_matrices\<close> returns\<close>

lemma collect_map:
  "(\<And>x. x \<in> set xs \<Longrightarrow> f x = Inr (g x)) \<Longrightarrow> collect f xs = Inr (map g xs)"
  by (induction xs) simp_all

lemma matrix_entry_coefficient:
  "(i, j) \<in> dom P \<Longrightarrow> matrix_entry P i j = Inr (coefficient P i j)"
  by (auto simp: matrix_entry_def coefficient_def)

lemma right_hand_side_list:
  assumes "0 \<le> sz"
  shows "(replicate (nat (sz + 1)) (- 1))[nat sz := 0] = map (right_hand_side sz) [0..sz]"
proof (rule nth_equalityI)
  show "length ((replicate (nat (sz + 1)) (- 1 :: rat))[nat sz := 0]) =
        length (map (right_hand_side sz) [0..sz])" by simp
next
  fix k assume "k < length ((replicate (nat (sz + 1)) (- 1 :: rat))[nat sz := 0])"
  then have k: "int k \<le> sz" using assms by simp
  then have "[0..sz] ! k = int k" by simp
  with k assms show "(replicate (nat (sz + 1)) (- 1))[nat sz := 0] ! k =
        map (right_hand_side sz) [0..sz] ! k"
    by (cases "k = nat sz") (auto simp: right_hand_side_def nth_list_update)
qed

lemma make_matrices_returns:
  assumes "0 \<le> sz" "{0..sz} \<times> {0..sz} \<subseteq> dom P"
  shows "make_matrices P sz =
    Inr (map (\<lambda>i. map (coefficient P i) [0..sz]) [0..sz], map (right_hand_side sz) [0..sz])"
proof -
  have row: "collect (matrix_entry P i) [0..sz] = Inr (map (coefficient P i) [0..sz])"
    if i: "i \<in> set [0..sz]" for i
  proof (intro collect_map matrix_entry_coefficient)
    fix j assume "j \<in> set [0..sz]"
    with i have "(i, j) \<in> {0..sz} \<times> {0..sz}" by simp
    with assms(2) show "(i, j) \<in> dom P" by (rule subsetD)
  qed
  have "collect (\<lambda>i. collect (matrix_entry P i) [0..sz]) [0..sz] =
        Inr (map (\<lambda>i. map (coefficient P i) [0..sz]) [0..sz])"
    by (rule collect_map) (rule row)
  with assms(1) show ?thesis
    by (simp add: make_matrices_def right_hand_side_list)
qed

lemma dom_transition_table:
  "dom (transition_table sz m d tr ex) = {0..sz} \<times> {0..sz}"
  by (auto simp: transition_table_def split: if_splits)

lemma get_probabilities_dom:
  "get_probabilities sz snadders d tr ex = Some (Inr P) \<Longrightarrow> dom P = {0..sz} \<times> {0..sz}"
  using returned_table_unique dom_transition_table by blast

section \<open>The equations of the system\<close>

lemma coefficient_transition_table:
  assumes "0 \<le> i" "i \<le> sz" "0 \<le> j" "j \<le> sz"
  shows "coefficient (transition_table sz m d tr ex) i j =
    (if i < sz then mass sz m d tr ex i j else 0) - (if i = j then 1 else 0)"
  using assms by (simp add: coefficient_def transition_table_def)

lemma end_row_list:
  assumes "0 \<le> sz"
  shows "map (coefficient (transition_table sz m d tr ex) sz) [0..sz] = replicate (nat sz) 0 @ [- 1]"
proof -
  let ?c = "coefficient (transition_table sz m d tr ex) sz"
  have "map ?c [0..sz - 1] = map (\<lambda>j. 0) [0..sz - 1]"
    using assms by (intro map_cong refl) (simp add: coefficient_transition_table)
  also have "\<dots> = replicate (nat sz) 0" by (simp add: map_replicate_const)
  finally have "map ?c [0..sz - 1] = replicate (nat sz) 0" .
  moreover have "?c sz = - 1" using assms by (simp add: coefficient_transition_table)
  moreover have "[0..sz] = [0..sz - 1] @ [sz]" using assms by (rule upto_rec2)
  ultimately show ?thesis by simp
qed

lemma dot_last:
  "length e = Suc n \<Longrightarrow> dot (replicate n 0 @ [c]) e = c * e ! n"
proof (induction n arbitrary: e)
  case 0
  then obtain x where "e = [x]" by (cases e) auto
  then show ?case by (simp add: dot_def)
next
  case (Suc n)
  then obtain x xs where e: "e = x # xs" "length xs = Suc n" by (cases e) auto
  from Suc.IH[OF e(2)] e(1) show ?case by (simp add: dot_def)
qed

lemma is_solution_row:
  assumes "is_solution a b e" "k < length a"
  shows "dot (a ! k) e = b ! k"
proof -
  from assms(1) have "map (\<lambda>row. dot row e) a = b" by (simp add: is_solution_def)
  then have "map (\<lambda>row. dot row e) a ! k = b ! k" by simp
  with assms(2) show ?thesis by simp
qed

lemma dot_upto:
  assumes "length e = nat (sz + 1)"
  shows "dot (map g [0..sz]) e = (\<Sum>j\<leftarrow>[0..sz]. g j * e ! nat j)"
proof -
  have e: "e = map (\<lambda>j. e ! nat j) [0..sz]"
  proof (rule nth_equalityI)
    show "length e = length (map (\<lambda>j. e ! nat j) [0..sz])" using assms by simp
  next
    fix k assume "k < length e"
    with assms have "int k \<le> sz" by simp
    then have "[0..sz] ! k = int k" by simp
    with \<open>k < length e\<close> assms show "e ! k = map (\<lambda>j. e ! nat j) [0..sz] ! k" by simp
  qed
  have "zip (map g [0..sz]) (map (\<lambda>j. e ! nat j) [0..sz]) =
        map (\<lambda>j. (g j, e ! nat j)) [0..sz]"
    by (simp add: zip_map_map zip_same_conv_map)
  then have "dot (map g [0..sz]) (map (\<lambda>j. e ! nat j) [0..sz]) =
        (\<Sum>j\<leftarrow>[0..sz]. g j * e ! nat j)"
    by (simp add: dot_def comp_def)
  with e show ?thesis by simp
qed

lemma is_solution_iff:
  "is_solution (map (\<lambda>i. map (coefficient P i) [0..sz]) [0..sz])
     (map (right_hand_side sz) [0..sz]) e \<longleftrightarrow>
   length e = nat (sz + 1) \<and>
   (\<forall>i\<in>{0..sz}. (\<Sum>j\<leftarrow>[0..sz]. coefficient P i j * e ! nat j) = right_hand_side sz i)"
proof (cases "length e = nat (sz + 1)")
  case True
  have "map (\<lambda>row. dot row e) (map (\<lambda>i. map (coefficient P i) [0..sz]) [0..sz]) =
        map (\<lambda>i. \<Sum>j\<leftarrow>[0..sz]. coefficient P i j * e ! nat j) [0..sz]"
    by (simp add: dot_upto[OF True] comp_def)
  with True show ?thesis by (simp add: is_solution_def)
next
  case False
  then show ?thesis by (simp add: is_solution_def)
qed

lemma bellman_row:
  fixes f :: "int \<Rightarrow> rat"
  assumes "0 \<le> i" "i < sz"
    and "\<forall>r\<in>{1..d}. \<exists>t. landing sz m tr ex i r = Some t \<and> 0 \<le> t \<and> t \<le> sz"
  shows "(\<Sum>j\<leftarrow>[0..sz]. coefficient (transition_table sz m d tr ex) i j * f j) =
         (\<Sum>r\<leftarrow>[1..d]. f (the (landing sz m tr ex i r)) / of_int d) - f i"
proof -
  have "(\<Sum>j\<leftarrow>[0..sz]. coefficient (transition_table sz m d tr ex) i j * f j) =
        (\<Sum>j\<leftarrow>[0..sz]. mass sz m d tr ex i j * f j - (if i = j then f j else 0))"
    using assms(1,2)
    by (intro arg_cong[where f = sum_list] map_cong refl)
       (simp add: coefficient_transition_table algebra_simps)
  also have "\<dots> = (\<Sum>j\<leftarrow>[0..sz]. mass sz m d tr ex i j * f j) -
                  (\<Sum>j\<leftarrow>[0..sz]. if i = j then f j else 0)"
    by (rule sum_list_subtractf)
  also have "(\<Sum>j\<leftarrow>[0..sz]. if i = j then f j else 0) = f i"
    using assms(1,2) by (simp add: sum_list_delta)
  also have "(\<Sum>j\<leftarrow>[0..sz]. mass sz m d tr ex i j * f j) =
             (\<Sum>r\<leftarrow>[1..d]. f (the (landing sz m tr ex i r)) / of_int d)"
    by (rule mass_weighted[OF assms(3)])
  finally show ?thesis .
qed

lemma end_row_sum:
  fixes f :: "int \<Rightarrow> rat"
  assumes "0 \<le> sz"
  shows "(\<Sum>j\<leftarrow>[0..sz]. coefficient (transition_table sz m d tr ex) sz j * f j) = - f sz"
proof -
  have "(\<Sum>j\<leftarrow>[0..sz]. coefficient (transition_table sz m d tr ex) sz j * f j) =
        (\<Sum>j\<leftarrow>[0..sz]. if sz = j then - f j else 0)"
    using assms
    by (intro arg_cong[where f = sum_list] map_cong refl)
       (simp add: coefficient_transition_table)
  also have "\<dots> = - f sz" using assms by (simp add: sum_list_delta)
  finally show ?thesis .
qed

section \<open>Boards without snadders\<close>

lemma follow_empty: "follow Map.empty t = Some t"
  by (subst follow.simps) simp

lemma landing_empty:
  "landing sz Map.empty tr False s r = Some (min (s + r) sz)"
  by (simp add: landing_def resolve_def jump_once_def follow_empty overshoot_def min_def)

lemma no_snadders_empty:
  "snadders = None \<or> snadders = Some [] \<Longrightarrow> snadders_or_empty snadders = Map.empty"
  by (auto simp: snadders_or_empty_def)

lemma no_snadders_table:
  assumes "snadders = None \<or> snadders = Some []"
  shows "get_probabilities sz snadders d tr False =
    Some (Inr (transition_table sz Map.empty d tr False))"
proof -
  have "\<forall>s\<in>{0..<sz}. \<forall>r\<in>{1..d}. \<exists>t\<ge>0. resolve (snadders_or_empty snadders) tr (s + r) = Some t"
    by (simp add: no_snadders_empty[OF assms] resolve_def jump_once_def follow_empty)
  from returns_transition_table[OF this, of False] show ?thesis
    by (simp add: no_snadders_empty[OF assms])
qed

lemma no_snadders_solution_iff:
  assumes "0 \<le> sz" and P_def: "P = transition_table sz Map.empty d tr False"
  shows "is_solution (map (\<lambda>i. map (coefficient P i) [0..sz]) [0..sz])
     (map (right_hand_side sz) [0..sz]) e \<longleftrightarrow>
   length e = nat (sz + 1) \<and> e ! nat sz = 0 \<and>
   (\<forall>i\<in>{0..<sz}. e ! nat i = 1 + (\<Sum>r\<leftarrow>[1..d]. e ! nat (min (i + r) sz) / of_int d))"
proof -
  let ?f = "\<lambda>j. e ! nat j"
  have land: "\<forall>r\<in>{1..d}. \<exists>t. landing sz Map.empty tr False i r = Some t \<and> 0 \<le> t \<and> t \<le> sz"
    if "0 \<le> i" "i < sz" for i
    using that by (simp add: landing_empty)
  have row: "(\<Sum>j\<leftarrow>[0..sz]. coefficient P i j * ?f j) =
      (\<Sum>r\<leftarrow>[1..d]. ?f (min (i + r) sz) / of_int d) - ?f i"
    if "0 \<le> i" "i < sz" for i
    unfolding P_def bellman_row[where f = ?f, OF that land[OF that]]
    by (simp add: landing_empty)
  have last: "(\<Sum>j\<leftarrow>[0..sz]. coefficient P sz j * ?f j) = - ?f sz"
    unfolding P_def by (rule end_row_sum[OF assms(1)])
  have split: "{0..sz} = insert sz {0..<sz}" using assms(1) by auto
  have "(\<forall>i\<in>{0..sz}. (\<Sum>j\<leftarrow>[0..sz]. coefficient P i j * ?f j) = right_hand_side sz i) \<longleftrightarrow>
        ?f sz = 0 \<and> (\<forall>i\<in>{0..<sz}. ?f i = 1 + (\<Sum>r\<leftarrow>[1..d]. ?f (min (i + r) sz) / of_int d))"
    unfolding split by (auto simp: last row right_hand_side_def)
  then show ?thesis unfolding is_solution_iff by simp
qed

lemma rolls_decrease:
  fixes f :: "int \<Rightarrow> rat"
  assumes d: "1 \<le> d" and e0: "f sz = 0"
    and rec: "\<And>i. 0 \<le> i \<Longrightarrow> i < sz \<Longrightarrow>
                f i = 1 + (\<Sum>r\<leftarrow>[1..d]. f (min (i + r) sz) / of_int d)"
  shows "0 \<le> i \<Longrightarrow> i < sz \<Longrightarrow> f (i + 1) < f i"
proof (induction "nat (sz - 1 - i)" arbitrary: i rule: less_induct)
  case less
  have dec: "f (j + 1) < f j" if "i < j" "j < sz" for j
    using less.hyps[of j] that less.prems by simp
  have anti: "f k \<le> f j" if "j \<le> k" "i < j" "k \<le> sz" for j k
    using that
  proof (induction k rule: int_ge_induct)
    case base
    show ?case by simp
  next
    case (step k)
    then have "f (k + 1) < f k" by (intro dec) simp_all
    with step show ?case by simp
  qed
  have dpos: "0 < rat_of_int d" using d by simp
  show ?case
  proof (cases "i + 1 = sz")
    case True
    have "(\<Sum>r\<leftarrow>[1..d]. f (min (i + r) sz) / of_int d) = (\<Sum>r\<leftarrow>[1..d]. 0)"
    proof (intro arg_cong[where f = sum_list] map_cong refl)
      fix r assume "r \<in> set [1..d]"
      then have "sz \<le> i + r" using True by simp
      then have "min (i + r) sz = sz" by (rule min_absorb2)
      with e0 show "f (min (i + r) sz) / of_int d = 0" by simp
    qed
    then have "f i = 1" using rec[OF less.prems] by simp
    with True e0 show ?thesis by simp
  next
    case False
    with less.prems have lt: "i + 1 < sz" by simp
    have up: "[1..d] = 1 # [2..d]" using d by (simp add: upto_rec1)
    have fi: "f i = 1 + (f (i + 1) / of_int d + (\<Sum>r\<leftarrow>[2..d]. f (min (i + r) sz) / of_int d))"
      using rec[OF less.prems] lt unfolding up by (simp add: min_def)
    have fi1: "f (i + 1) = 1 + (f (i + 2) / of_int d +
        (\<Sum>r\<leftarrow>[2..d]. f (min (i + 1 + r) sz) / of_int d))"
      using rec[of "i + 1"] less.prems lt unfolding up by (simp add: min_def add.commute add.left_commute)
    have "i + 1 + 1 = i + 2" by simp
    moreover have "f (i + 1 + 1) < f (i + 1)" using lt by (intro dec) simp_all
    ultimately have "f (i + 2) < f (i + 1)" by (simp only:)
    then have head: "f (i + 2) / of_int d < f (i + 1) / of_int d"
      using dpos by (rule divide_strict_right_mono)
    have tail: "(\<Sum>r\<leftarrow>[2..d]. f (min (i + 1 + r) sz) / of_int d) \<le>
                (\<Sum>r\<leftarrow>[2..d]. f (min (i + r) sz) / of_int d)"
    proof (rule sum_list_mono)
      fix r assume "r \<in> set [2..d]"
      then have r: "2 \<le> r" by simp
      have "f (min (i + 1 + r) sz) \<le> f (min (i + r) sz)"
        using r lt by (intro anti) simp_all
      then show "f (min (i + 1 + r) sz) / of_int d \<le> f (min (i + r) sz) / of_int d"
        using dpos by (simp add: divide_right_mono)
    qed
    from head tail fi fi1 show ?thesis by simp
  qed
qed

lemma single_face_count:
  fixes f :: "int \<Rightarrow> rat"
  assumes e0: "f sz = 0"
    and rec: "\<And>i. 0 \<le> i \<Longrightarrow> i < sz \<Longrightarrow> f i = 1 + f (i + 1)"
  shows "int n \<le> sz \<Longrightarrow> f (sz - int n) = of_nat n"
proof (induction n)
  case 0
  with e0 show ?case by simp
next
  case (Suc n)
  then have "f (sz - int (Suc n)) = 1 + f (sz - int (Suc n) + 1)"
    by (intro rec) simp_all
  also have "sz - int (Suc n) + 1 = sz - int n" by simp
  finally show ?case using Suc by simp
qed

lemma expected_rolls_solution:
  assumes "0 \<le> sz" and P_def: "P = transition_table sz Map.empty d tr False"
  shows "is_solution (map (\<lambda>i. map (coefficient P i) [0..sz]) [0..sz])
     (map (right_hand_side sz) [0..sz])
     (map (\<lambda>i. expected_rolls d (nat (sz - i))) [0..sz])"
proof -
  let ?e = "map (\<lambda>i. expected_rolls d (nat (sz - i))) [0..sz]"
  have nth: "?e ! nat j = expected_rolls d (nat (sz - j))" if "0 \<le> j" "j \<le> sz" for j
  proof -
    from that have "nat j < length [0..sz]" "[0..sz] ! nat j = j" by simp_all
    then show ?thesis by (simp del: length_upto)
  qed
  have "?e ! nat sz = 0" using assms(1) by (simp add: nth expected_rolls.simps)
  moreover have "?e ! nat i = 1 + (\<Sum>r\<leftarrow>[1..d]. ?e ! nat (min (i + r) sz) / of_int d)"
    if i: "i \<in> {0..<sz}" for i
  proof -
    from i have pos: "nat (sz - i) \<noteq> 0" by simp
    have "?e ! nat i = expected_rolls d (nat (sz - i))" using i by (simp add: nth)
    also have "\<dots> = 1 + (\<Sum>r\<leftarrow>[1..d]. expected_rolls d (nat (sz - i) - nat r) / of_int d)"
      using pos by (subst expected_rolls.simps) simp
    also have "(\<Sum>r\<leftarrow>[1..d]. expected_rolls d (nat (sz - i) - nat r) / of_int d) =
               (\<Sum>r\<leftarrow>[1..d]. ?e ! nat (min (i + r) sz) / of_int d)"
    proof (intro arg_cong[where f = sum_list] map_cong refl)
      fix r assume "r \<in> set [1..d]"
      then have r: "1 \<le> r" by simp
      with i have "0 \<le> min (i + r) sz" "min (i + r) sz \<le> sz" by simp_all
      then have "?e ! nat (min (i + r) sz) = expected_rolls d (nat (sz - min (i + r) sz))"
        by (rule nth)
      moreover have "nat (sz - min (i + r) sz) = nat (sz - i) - nat r"
        using r i by (auto simp: min_def)
      ultimately show "expected_rolls d (nat (sz - i) - nat r) / of_int d =
                       ?e ! nat (min (i + r) sz) / of_int d" by simp
    qed
    finally show ?thesis .
  qed
  ultimately show ?thesis
    unfolding no_snadders_solution_iff[OF assms] by simp
qed

lemma no_snadders_system:
  assumes "0 \<le> sz" "snadders = None \<or> snadders = Some []"
    and P: "P = transition_table sz Map.empty d tr False"
  shows "get_probabilities sz snadders d tr False = Some (Inr P)"
    and "make_matrices P sz =
      Inr (map (\<lambda>i. map (coefficient P i) [0..sz]) [0..sz], map (right_hand_side sz) [0..sz])"
proof -
  show "get_probabilities sz snadders d tr False = Some (Inr P)"
    unfolding P using assms(2) by (rule no_snadders_table)
  show "make_matrices P sz =
      Inr (map (\<lambda>i. map (coefficient P i) [0..sz]) [0..sz], map (right_hand_side sz) [0..sz])"
    using assms(1) unfolding P by (intro make_matrices_returns) (simp_all add: dom_transition_table)
qed

section \<open>The claims\<close>

subsection \<open>C1: the table of \<^verbatim>\<open>get_probabilities\<close>\<close>

text \<open>
  Claim C1, as amended.  Whenever the snadders of every raw landing tile \<open>s + r\<close>, for a
  source tile \<open>s\<close> of \<open>0..sz - 1\<close> and a roll \<open>r\<close> of \<open>1..d\<close>, are resolved in finitely
  many steps and end on a tile that is not negative, \<^verbatim>\<open>get_probabilities\<close> returns the
  table of the specification: for each such \<open>s\<close> and \<open>r\<close> the landing tile is
  \<open>t = s + r\<close>, then the snadders, then the overshoot policy, and the entry \<open>(s, t)\<close>
  holds one share \<open>1 / d\<close> for each roll that lands on \<open>t\<close>; the entries no roll reaches,
  and the row of the end tile, are \<open>0\<close>.
\<close>

theorem get_probabilities_table:
  assumes "\<forall>s\<in>{0..<sz}. \<forall>r\<in>{1..d}.
             \<exists>t\<ge>0. resolve (snadders_or_empty snadders) transitive (s + r) = Some t"
  shows "get_probabilities sz snadders d transitive exact =
    Some (Inr (transition_table sz (snadders_or_empty snadders) d transitive exact))"
  using assms by (rule returns_transition_table)

text \<open>
  The theorem at the board of size 3 with the snadder \<open>1 \<mapsto> 2\<close> and a die of two faces:
  both rolls from the start tile end on the tile 2.
\<close>

theorem get_probabilities_table_witness:
  "get_probabilities 3 (Some [(1, 2)]) 2 False False =
     Some (Inr (transition_table 3 (snadders_or_empty (Some [(1, 2)])) 2 False False))
   \<and> transition_table 3 (snadders_or_empty (Some [(1, 2)])) 2 False False (0, 2) = Some 1"
proof -
  have "\<forall>s\<in>{0..<3::int}. \<forall>r\<in>{1..2::int}.
          \<exists>t\<ge>0. resolve (snadders_or_empty (Some [(1, 2)])) False (s + r) = Some t"
    by (auto simp: resolve_def jump_once_def snadders_or_empty_def)
  from get_probabilities_table[OF this, of False]
  have "get_probabilities 3 (Some [(1, 2)]) 2 False False =
     Some (Inr (transition_table 3 (snadders_or_empty (Some [(1, 2)])) 2 False False))" .
  moreover have "transition_table 3 (snadders_or_empty (Some [(1, 2)])) 2 False False (0, 2) = Some 1"
    by code_simp
  ultimately show ?thesis by simp
qed

text \<open>
  Claim C1 as stated, for every snadder map and both flags, fails: with the transitive
  flag and the cycle \<open>1 \<mapsto> 2\<close>, \<open>2 \<mapsto> 1\<close> the first roll from the start tile is followed
  forever, and no table is returned.
\<close>

theorem get_probabilities_cycle_counterexample:
  "get_probabilities 3 (Some [(1, 2), (2, 1)]) 2 True False = None"
proof -
  let ?m = "snadders_or_empty (Some [(1, 2), (2, 1)])"
  have "hops ?m (Suc (Suc 0)) 1 = Some 1"
    by (simp add: snadders_or_empty_def)
  then have "on_cycle ?m 1" unfolding on_cycle_def by (intro exI[of _ "Suc (Suc 0)"]) simp
  then have "hops ?m 0 (0 + 1) = Some 1 \<and> on_cycle ?m 1" by simp
  then have "cycle_reachable ?m (0 + 1)" unfolding cycle_reachable_def by blast
  then have "follow ?m (0 + 1) = None" by (rule cycle_reachable_diverges)
  then have key: "landing_key 3 ?m True False (0, 1) = None"
    by (simp add: landing_key_def landing_def resolve_def)
  obtain rest where "all_rolls 3 2 = (0, 1) # rest"
    using all_rolls_Cons[of 3 2] by auto
  then show ?thesis
    unfolding get_probabilities_step
    using step_Cons_diverges[of "landing_key 3 ?m True False" "(0, 1)" 2 rest "init_table 3", OF key]
    by simp
qed

subsection \<open>C9: termination of \<^verbatim>\<open>get_probabilities\<close>\<close>

text \<open>
  Claim C9.  \<^verbatim>\<open>get_probabilities\<close> fails to return only when the transitive flag is set
  and a cycle of snadders is reachable from some raw landing tile \<open>s + r\<close>, with \<open>s\<close> in
  \<open>0..sz - 1\<close> and \<open>r\<close> in \<open>1..d\<close>.  In particular the call ends, with a table or an
  exception, when the flag is not set, and when the snadders have no cycle.
\<close>

theorem get_probabilities_terminates:
  "(get_probabilities sz snadders d transitive exact = None \<longrightarrow>
      transitive \<and>
      (\<exists>s\<in>{0..<sz}. \<exists>r\<in>{1..d}. cycle_reachable (snadders_or_empty snadders) (s + r)))
   \<and> (\<not> transitive \<longrightarrow> (\<exists>out. get_probabilities sz snadders d transitive exact = Some out))
   \<and> (acyclic_snadders (snadders_or_empty snadders) \<longrightarrow>
        (\<exists>out. get_probabilities sz snadders d transitive exact = Some out))"
  using get_probabilities_diverges[of sz snadders d transitive exact]
    acyclic_not_reachable[of "snadders_or_empty snadders"]
  by (cases "get_probabilities sz snadders d transitive exact") auto

text \<open>
  The theorem at a chain of two ladders, \<open>1 \<mapsto> 2\<close> and \<open>2 \<mapsto> 3\<close>, followed transitively:
  the snadders have no cycle, and the call ends.
\<close>

theorem get_probabilities_terminates_witness:
  "\<exists>out. get_probabilities 3 (Some [(1, 2), (2, 3)]) 2 True False = Some out"
proof -
  have "\<forall>k v. snadders_or_empty (Some [(1, 2), (2, 3)]) k = Some v \<longrightarrow> k < v"
    by (auto simp: snadders_or_empty_def split: if_splits)
  then have "acyclic_snadders (snadders_or_empty (Some [(1, 2), (2, 3)]))"
    by (rule increasing_acyclic)
  with get_probabilities_terminates[of 3 "Some [(1, 2), (2, 3)]" 2 True False]
  show ?thesis by blast
qed

subsection \<open>C4: snadders outside the range of the tiles\<close>

text \<open>
  Claim C4, as amended.  When the resolution of every raw landing tile terminates,
  \<^verbatim>\<open>get_probabilities\<close> raises \<^verbatim>\<open>KeyError\<close> exactly when the resolution of some raw
  landing tile \<open>s + r\<close> ends on a negative tile; otherwise it returns the table.  A source
  that no roll lands on, and a destination that is \<open>0\<close>, the end tile or beyond the end
  tile (which the overshoot policy brings back), raise nothing.
\<close>

theorem key_error_characterised:
  assumes "\<forall>s\<in>{0..<sz}. \<forall>r\<in>{1..d}. resolve (snadders_or_empty snadders) transitive (s + r) \<noteq> None"
  shows "if (\<exists>s\<in>{0..<sz}. \<exists>r\<in>{1..d}. \<exists>t<0.
               resolve (snadders_or_empty snadders) transitive (s + r) = Some t)
         then (\<exists>k. get_probabilities sz snadders d transitive exact = Some (Inl (KeyError k)))
         else get_probabilities sz snadders d transitive exact =
                Some (Inr (transition_table sz (snadders_or_empty snadders) d transitive exact))"
proof (cases "\<exists>s\<in>{0..<sz}. \<exists>r\<in>{1..d}. \<exists>t<0.
               resolve (snadders_or_empty snadders) transitive (s + r) = Some t")
  case True
  let ?gp = "get_probabilities sz snadders d transitive exact"
  have "?gp \<noteq> None"
    using get_probabilities_diverges[of sz snadders d transitive exact] assms
    by (metis cycle_reachable_diverges resolve_def)
  moreover have "?gp \<noteq> Some (Inr P)" for P
    using get_probabilities_returns_only[of sz snadders d transitive exact P] True
    by fastforce
  ultimately obtain e where "?gp = Some (Inl e)"
  proof (cases ?gp)
    case None
    with \<open>?gp \<noteq> None\<close> show ?thesis by simp
  next
    case (Some out)
    with \<open>\<And>P. ?gp \<noteq> Some (Inr P)\<close> that show ?thesis by (cases out) auto
  qed
  with get_probabilities_raises[OF this] have "\<exists>k. ?gp = Some (Inl (KeyError k))" by blast
  with True show ?thesis by simp
next
  case False
  have "\<forall>s\<in>{0..<sz}. \<forall>r\<in>{1..d}.
          \<exists>t\<ge>0. resolve (snadders_or_empty snadders) transitive (s + r) = Some t"
  proof (intro ballI)
    fix s r assume mem: "s \<in> {0..<sz}" "r \<in> {1..d}"
    with assms obtain t where t: "resolve (snadders_or_empty snadders) transitive (s + r) = Some t"
      by blast
    with False mem have "\<not> t < 0" by blast
    with t show "\<exists>t\<ge>0. resolve (snadders_or_empty snadders) transitive (s + r) = Some t"
      by auto
  qed
  from returns_transition_table[OF this] False show ?thesis by simp
qed

text \<open>
  The theorem on the board of size 1 with the snadder \<open>1 \<mapsto> -1\<close>: the only roll ends on
  the tile \<open>-1\<close>, and the lookup of the entry fails.
\<close>

theorem key_error_characterised_witness:
  "\<exists>k. get_probabilities 1 (Some [(1, - 1)]) 1 False False = Some (Inl (KeyError k))"
proof -
  have a: "\<forall>s\<in>{0..<1::int}. \<forall>r\<in>{1..1::int}.
          resolve (snadders_or_empty (Some [(1, - 1)])) False (s + r) \<noteq> None"
    by (simp add: resolve_def)
  have "resolve (snadders_or_empty (Some [(1, - 1)])) False (0 + 1) = Some (- 1)"
    by (simp add: resolve_def jump_once_def snadders_or_empty_def)
  then have b: "\<exists>s\<in>{0..<1::int}. \<exists>r\<in>{1..1::int}. \<exists>t<0.
          resolve (snadders_or_empty (Some [(1, - 1)])) False (s + r) = Some t"
    by (intro bexI[of _ 0] bexI[of _ 1] exI[of _ "- 1"]) simp_all
  from key_error_characterised[OF a, of False] b show ?thesis by simp
qed

text \<open>
  Claim C4 as stated fails: on the board of size 3 the destination 7 of the snadder
  \<open>1 \<mapsto> 7\<close> is outside \<open>1..2\<close>, and the table is returned all the same.
\<close>

theorem out_of_range_silent_counterexample:
  "\<not> snadders_in_range 3 (Some [(1, 7)]) \<and>
   get_probabilities 3 (Some [(1, 7)]) 2 False False =
     Some (Inr (transition_table 3 (snadders_or_empty (Some [(1, 7)])) 2 False False))"
proof -
  have "\<forall>s\<in>{0..<3::int}. \<forall>r\<in>{1..2::int}.
          \<exists>t\<ge>0. resolve (snadders_or_empty (Some [(1, 7)])) False (s + r) = Some t"
    by (auto simp: resolve_def jump_once_def snadders_or_empty_def)
  from returns_transition_table[OF this] show ?thesis
    by (simp add: snadders_in_range_def)
qed

subsection \<open>C8: a single lookup without the transitive flag\<close>

text \<open>
  Claim C8.  Without the transitive flag the snadders are looked up once for each roll:
  the landing tile of the roll \<open>r\<close> from \<open>s\<close> is the destination of \<open>s + r\<close> when \<open>s + r\<close>
  is the source of a snadder, whether or not that destination is a source itself, and
  \<open>s + r\<close> otherwise; the table holds the shares of these landing tiles (after the
  overshoot policy).  The first part is the body of the loop for one roll; in the second
  the premise keeps the landing tiles from being negative, so that a table is returned.
\<close>

theorem single_lookup_table:
  "roll_step sz (snadders_or_empty snadders) d False exact idx result roll =
     Some (add_mass result
            (idx, overshoot sz exact idx
                    (case snadders_or_empty snadders (idx + roll) of
                       None \<Rightarrow> idx + roll
                     | Some dest \<Rightarrow> dest)) d)
   \<and> ((\<forall>s\<in>{0..<sz}. \<forall>r\<in>{1..d}.
          0 \<le> (case snadders_or_empty snadders (s + r) of None \<Rightarrow> s + r | Some dest \<Rightarrow> dest)) \<longrightarrow>
        get_probabilities sz snadders d False exact =
          Some (Inr (\<lambda>(s, t).
            if 0 \<le> s \<and> s \<le> sz \<and> 0 \<le> t \<and> t \<le> sz
            then Some (if s < sz
                       then (\<Sum>r\<leftarrow>[1..d].
                               if overshoot sz exact s
                                    (case snadders_or_empty snadders (s + r) of
                                       None \<Rightarrow> s + r
                                     | Some dest \<Rightarrow> dest) = t
                               then 1 / of_int d else 0)
                       else 0)
            else None)))"
proof (intro conjI impI)
  show "roll_step sz (snadders_or_empty snadders) d False exact idx result roll =
     Some (add_mass result
            (idx, overshoot sz exact idx
                    (case snadders_or_empty snadders (idx + roll) of
                       None \<Rightarrow> idx + roll
                     | Some dest \<Rightarrow> dest)) d)"
    by (simp add: roll_step_def resolve_def jump_once_def)
next
  assume "\<forall>s\<in>{0..<sz}. \<forall>r\<in>{1..d}.
          0 \<le> (case snadders_or_empty snadders (s + r) of None \<Rightarrow> s + r | Some dest \<Rightarrow> dest)"
  then have "\<forall>s\<in>{0..<sz}. \<forall>r\<in>{1..d}.
          \<exists>t\<ge>0. resolve (snadders_or_empty snadders) False (s + r) = Some t"
    by (simp add: resolve_def jump_once_def)
  then have "get_probabilities sz snadders d False exact =
    Some (Inr (transition_table sz (snadders_or_empty snadders) d False exact))"
    by (rule returns_transition_table)
  moreover have "transition_table sz (snadders_or_empty snadders) d False exact =
    (\<lambda>(s, t).
      if 0 \<le> s \<and> s \<le> sz \<and> 0 \<le> t \<and> t \<le> sz
      then Some (if s < sz
                 then (\<Sum>r\<leftarrow>[1..d].
                         if overshoot sz exact s
                              (case snadders_or_empty snadders (s + r) of
                                 None \<Rightarrow> s + r
                               | Some dest \<Rightarrow> dest) = t
                         then 1 / of_int d else 0)
                 else 0)
      else None)"
    unfolding transition_table_def mass_def landing_def resolve_def jump_once_def
    by (simp cong: if_cong)
  ultimately show "get_probabilities sz snadders d False exact =
    Some (Inr (\<lambda>(s, t).
      if 0 \<le> s \<and> s \<le> sz \<and> 0 \<le> t \<and> t \<le> sz
      then Some (if s < sz
                 then (\<Sum>r\<leftarrow>[1..d].
                         if overshoot sz exact s
                              (case snadders_or_empty snadders (s + r) of
                                 None \<Rightarrow> s + r
                               | Some dest \<Rightarrow> dest) = t
                         then 1 / of_int d else 0)
                 else 0)
      else None))"
    by (simp only:)
qed

text \<open>
  The theorem at the chain \<open>1 \<mapsto> 2\<close>, \<open>2 \<mapsto> 3\<close> on the board of size 3 with a die of one
  face: the roll from the start tile stops on the tile 2 and does not go on to 3.
\<close>

theorem single_lookup_table_witness:
  "\<exists>P. get_probabilities 3 (Some [(1, 2), (2, 3)]) 1 False False = Some (Inr P)
     \<and> P (0, 2) = Some 1 \<and> P (0, 3) = Some 0"
proof -
  have "\<forall>s\<in>{0..<3::int}. \<forall>r\<in>{1..1::int}.
          0 \<le> (case snadders_or_empty (Some [(1, 2), (2, 3)]) (s + r) of
                 None \<Rightarrow> s + r | Some dest \<Rightarrow> dest)"
    by (auto simp: snadders_or_empty_def)
  with single_lookup_table[of 3 "Some [(1, 2), (2, 3)]" 1 False]
  have "get_probabilities 3 (Some [(1, 2), (2, 3)]) 1 False False =
          Some (Inr (\<lambda>(s, t).
            if 0 \<le> s \<and> s \<le> 3 \<and> 0 \<le> t \<and> t \<le> 3
            then Some (if s < 3
                       then (\<Sum>r\<leftarrow>[1..1].
                               if overshoot 3 False s
                                    (case snadders_or_empty (Some [(1, 2), (2, 3)]) (s + r) of
                                       None \<Rightarrow> s + r
                                     | Some dest \<Rightarrow> dest) = t
                               then 1 / of_int 1 else 0)
                       else 0)
            else None))"
    by blast
  then show ?thesis
    by (simp add: overshoot_def snadders_or_empty_def upto_rec1)
qed

subsection \<open>C3: the rows of the table are distributions\<close>

text \<open>
  Claim C3.  On a valid input, that is \<open>sz \<ge> 1\<close>, \<open>d \<ge> 1\<close>, snadders with sources and
  destinations in \<open>1..sz - 1\<close> and, when they are followed transitively, no cycle reachable
  from a raw landing tile, \<^verbatim>\<open>get_probabilities\<close> returns a table in which every row
  \<open>s\<close> of \<open>0..sz - 1\<close> sums to exactly 1 and every entry lies between 0 and 1.
\<close>

theorem rows_sum_to_one:
  assumes "1 \<le> sz" "1 \<le> d" "snadders_in_range sz snadders"
    and "transitive \<longrightarrow>
           \<not> (\<exists>s\<in>{0..<sz}. \<exists>r\<in>{1..d}. cycle_reachable (snadders_or_empty snadders) (s + r))"
  shows "\<exists>P. get_probabilities sz snadders d transitive exact = Some (Inr P)
           \<and> (\<forall>s\<in>{0..<sz}. row_sum P sz s = 1)
           \<and> (\<forall>s\<in>{0..sz}. \<forall>t\<in>{0..sz}. \<exists>p. P (s, t) = Some p \<and> 0 \<le> p \<and> p \<le> 1)"
proof -
  let ?m = "snadders_or_empty snadders"
  let ?P = "transition_table sz ?m d transitive exact"
  note res = valid_table[OF assms(3,4)]
  then have "get_probabilities sz snadders d transitive exact = Some (Inr ?P)"
    by (rule returns_transition_table)
  moreover have "\<forall>s\<in>{0..<sz}. row_sum ?P sz s = 1"
  proof
    fix s assume s: "s \<in> {0..<sz}"
    have "\<forall>r\<in>{1..d}. \<exists>t. landing sz ?m transitive exact s r = Some t \<and> 0 \<le> t \<and> t \<le> sz"
    proof
      fix r assume r: "r \<in> {1..d}"
      with res s obtain t where "0 \<le> t" "resolve ?m transitive (s + r) = Some t" by blast
      from landing_of_resolve[OF this(2,1), of sz exact] s
      show "\<exists>t. landing sz ?m transitive exact s r = Some t \<and> 0 \<le> t \<and> t \<le> sz" by simp
    qed
    with s assms(2) show "row_sum ?P sz s = 1"
      by (intro transition_table_row_sum) simp_all
  qed
  moreover have "\<forall>s\<in>{0..sz}. \<forall>t\<in>{0..sz}. \<exists>p. ?P (s, t) = Some p \<and> 0 \<le> p \<and> p \<le> 1"
    by (intro ballI transition_table_entry) simp_all
  ultimately show ?thesis by blast
qed

text \<open>
  The theorem on the board of size 3 with the snadder \<open>1 \<mapsto> 2\<close> and a die of two faces.
\<close>

theorem rows_sum_to_one_witness:
  "\<exists>P. get_probabilities 3 (Some [(1, 2)]) 2 False False = Some (Inr P)
     \<and> row_sum P 3 0 = 1 \<and> row_sum P 3 1 = 1 \<and> row_sum P 3 2 = 1
     \<and> P (0, 2) = Some 1"
proof -
  have "snadders_in_range 3 (Some [(1, 2)])" by (simp add: snadders_in_range_def)
  from rows_sum_to_one[OF _ _ this, of 2 False False]
  obtain P where P: "get_probabilities 3 (Some [(1, 2)]) 2 False False = Some (Inr P)"
    "\<forall>s\<in>{0..<3}. row_sum P 3 s = 1" by auto
  from P(2) have "row_sum P 3 0 = 1 \<and> row_sum P 3 1 = 1 \<and> row_sum P 3 2 = 1" by simp
  moreover have "P (0, 2) = Some 1"
    unfolding returned_table_unique[OF P(1)] by code_simp
  ultimately show ?thesis using P(1) by blast
qed

subsection \<open>C2: the entries of the system\<close>

text \<open>
  Claim C2.  For a table \<open>P\<close> returned by \<^verbatim>\<open>get_probabilities\<close> for the board size
  \<open>sz\<close>, \<^verbatim>\<open>make_matrices\<close> returns a square matrix \<open>a\<close> and a vector \<open>b\<close> of \<open>sz + 1\<close>
  rows with \<open>a[i][j] = P(i, j)\<close> off the diagonal, \<open>a[i][i] = P(i, i) - 1\<close> on it, and
  \<open>b[i] = -1\<close> for every \<open>i\<close> but \<open>b[sz] = 0\<close>.
\<close>

theorem make_matrices_entries:
  assumes "0 \<le> sz" "get_probabilities sz snadders d transitive exact = Some (Inr P)"
  shows "\<exists>a b. make_matrices P sz = Inr (a, b)
    \<and> length a = nat (sz + 1) \<and> length b = nat (sz + 1)
    \<and> (\<forall>i\<in>{0..sz}. length (a ! nat i) = nat (sz + 1)
          \<and> b ! nat i = (if i = sz then 0 else - 1)
          \<and> (\<forall>j\<in>{0..sz}. \<exists>p. P (i, j) = Some p
                \<and> a ! nat i ! nat j = (if i = j then p - 1 else p)))"
proof -
  let ?a = "map (\<lambda>i. map (coefficient P i) [0..sz]) [0..sz]"
  let ?b = "map (right_hand_side sz) [0..sz]"
  have dom: "dom P = {0..sz} \<times> {0..sz}" using assms(2) by (rule get_probabilities_dom)
  then have mm: "make_matrices P sz = Inr (?a, ?b)"
    using assms(1) by (intro make_matrices_returns) simp_all
  have len: "length ?a = nat (sz + 1)" "length ?b = nat (sz + 1)" by simp_all
  have "length (?a ! nat i) = nat (sz + 1)
          \<and> ?b ! nat i = (if i = sz then 0 else - 1)
          \<and> (\<forall>j\<in>{0..sz}. \<exists>p. P (i, j) = Some p
                \<and> ?a ! nat i ! nat j = (if i = j then p - 1 else p))"
    if i: "i \<in> {0..sz}" for i
  proof -
    from i have ni: "nat i < length [0..sz]" "[0..sz] ! nat i = i" by simp_all
    then have row: "?a ! nat i = map (coefficient P i) [0..sz]" by (simp del: length_upto)
    have "?b ! nat i = (if i = sz then 0 else - 1)"
      using ni by (simp add: right_hand_side_def del: length_upto)
    moreover have "\<exists>p. P (i, j) = Some p \<and> ?a ! nat i ! nat j = (if i = j then p - 1 else p)"
      if j: "j \<in> {0..sz}" for j
    proof -
      from j have nj: "nat j < length [0..sz]" "[0..sz] ! nat j = j" by simp_all
      from i j dom obtain p where p: "P (i, j) = Some p" by (auto simp: dom_def set_eq_iff)
      from nj have "?a ! nat i ! nat j = coefficient P i j"
        unfolding row by (simp del: length_upto)
      with p show ?thesis by (simp add: coefficient_def)
    qed
    ultimately show ?thesis unfolding row by simp
  qed
  with mm len show ?thesis by blast
qed

text \<open>
  The theorem on the board of size 2 without snadders and a die of two faces.
\<close>

theorem make_matrices_entries_witness:
  "\<exists>P a b. get_probabilities 2 None 2 False False = Some (Inr P)
     \<and> make_matrices P 2 = Inr (a, b)
     \<and> P (0, 1) = Some (1 / 2) \<and> a ! 0 ! 1 = 1 / 2
     \<and> P (1, 1) = Some 0 \<and> a ! 1 ! 1 = - 1
     \<and> b ! 0 = - 1 \<and> b ! 2 = 0"
proof -
  have "\<forall>s\<in>{0..<2::int}. \<forall>r\<in>{1..2::int}.
          \<exists>t\<ge>0. resolve (snadders_or_empty None) False (s + r) = Some t"
    by (auto simp: resolve_def jump_once_def snadders_or_empty_def)
  then have gp: "get_probabilities 2 None 2 False False =
      Some (Inr (transition_table 2 (snadders_or_empty None) 2 False False))"
    by (rule returns_transition_table)
  let ?P = "transition_table 2 (snadders_or_empty None) 2 False False"
  from make_matrices_entries[OF _ gp]
  obtain a b where ab: "make_matrices ?P 2 = Inr (a, b)"
    and rows: "\<forall>i\<in>{0..2::int}. b ! nat i = (if i = 2 then 0 else - 1)
          \<and> (\<forall>j\<in>{0..2::int}. \<exists>p. ?P (i, j) = Some p
                \<and> a ! nat i ! nat j = (if i = j then p - 1 else p))"
    by auto
  have P01: "?P (0, 1) = Some (1 / 2)" by code_simp
  have P11: "?P (1, 1) = Some 0" by code_simp
  have b0: "b ! 0 = - 1" using rows[THEN bspec, of 0] by simp
  have b2: "b ! 2 = 0" using rows[THEN bspec, of 2] by simp
  have "\<exists>p. ?P (0, 1) = Some p \<and> a ! nat 0 ! nat 1 = (if (0::int) = 1 then p - 1 else p)"
    using rows[THEN bspec, of 0, THEN conjunct2, THEN bspec, of 1] by simp
  with P01 have a01: "a ! 0 ! 1 = 1 / 2" by simp
  have "\<exists>p. ?P (1, 1) = Some p \<and> a ! nat 1 ! nat 1 = (if (1::int) = 1 then p - 1 else p)"
    using rows[THEN bspec, of 1, THEN conjunct2, THEN bspec, of 1] by simp
  with P11 have a11: "a ! 1 ! 1 = - 1" by simp
  from gp ab P01 P11 b0 b2 a01 a11 show ?thesis by blast
qed

subsection \<open>C7: the row of the end tile\<close>

text \<open>
  Claim C7.  On a valid input the row \<open>sz\<close> of the matrix is zero but for the entry
  \<open>-1\<close> on the diagonal, and the right-hand side of the row is \<open>0\<close>: the last equation
  is \<open>-e[sz] = 0\<close>, and every solution of the system has \<open>e[sz] = 0\<close>.
\<close>

theorem absorbing_row:
  assumes "0 \<le> sz" "snadders_in_range sz snadders"
    and "transitive \<longrightarrow>
           \<not> (\<exists>s\<in>{0..<sz}. \<exists>r\<in>{1..d}. cycle_reachable (snadders_or_empty snadders) (s + r))"
  shows "\<exists>P a b. get_probabilities sz snadders d transitive exact = Some (Inr P)
           \<and> make_matrices P sz = Inr (a, b)
           \<and> a ! nat sz = replicate (nat sz) 0 @ [- 1]
           \<and> b ! nat sz = 0
           \<and> (\<forall>e. is_solution a b e \<longrightarrow> e ! nat sz = 0)"
proof -
  let ?P = "transition_table sz (snadders_or_empty snadders) d transitive exact"
  let ?a = "map (\<lambda>i. map (coefficient ?P i) [0..sz]) [0..sz]"
  let ?b = "map (right_hand_side sz) [0..sz]"
  have gp: "get_probabilities sz snadders d transitive exact = Some (Inr ?P)"
    using valid_table[OF assms(2,3)] by (rule returns_transition_table)
  have mm: "make_matrices ?P sz = Inr (?a, ?b)"
    using assms(1) by (intro make_matrices_returns) (simp_all add: dom_transition_table)
  have n: "nat sz < length [0..sz]" "[0..sz] ! nat sz = sz" using assms(1) by simp_all
  then have row: "?a ! nat sz = replicate (nat sz) 0 @ [- 1]"
    using end_row_list[OF assms(1)] by (simp del: length_upto)
  have rhs: "?b ! nat sz = 0" using n by (simp add: right_hand_side_def del: length_upto)
  have "e ! nat sz = 0" if sol: "is_solution ?a ?b e" for e
  proof -
    from sol have len: "length e = Suc (nat sz)" using assms(1) by (simp add: is_solution_def Suc_nat_eq_nat_zadd1)
    from is_solution_row[OF sol, of "nat sz"] n(1)
    have "dot (?a ! nat sz) e = ?b ! nat sz" by simp
    then have "dot (replicate (nat sz) 0 @ [- 1]) e = 0" unfolding row rhs .
    with dot_last[OF len, of "- 1"] show ?thesis by simp
  qed
  with gp mm row rhs show ?thesis by blast
qed

text \<open>
  The theorem on the board of size 3 with the ladder \<open>1 \<mapsto> 2\<close>, followed transitively.
\<close>

theorem absorbing_row_witness:
  "\<exists>P a b. get_probabilities 3 (Some [(1, 2)]) 2 True False = Some (Inr P)
     \<and> make_matrices P 3 = Inr (a, b)
     \<and> a ! 3 = [0, 0, 0, - 1] \<and> b ! 3 = 0"
proof -
  have range: "snadders_in_range 3 (Some [(1, 2)])" by (simp add: snadders_in_range_def)
  have "\<forall>k v. snadders_or_empty (Some [(1, 2)]) k = Some v \<longrightarrow> k < v"
    by (auto simp: snadders_or_empty_def split: if_splits)
  then have "acyclic_snadders (snadders_or_empty (Some [(1, 2)]))"
    by (rule increasing_acyclic)
  then have "True \<longrightarrow> \<not> (\<exists>s\<in>{0..<3::int}. \<exists>r\<in>{1..2::int}.
      cycle_reachable (snadders_or_empty (Some [(1, 2)])) (s + r))"
    using acyclic_not_reachable by blast
  from absorbing_row[OF _ range this, of False]
  obtain P a b where "get_probabilities 3 (Some [(1, 2)]) 2 True False = Some (Inr P)"
    "make_matrices P 3 = Inr (a, b)" "a ! nat 3 = replicate (nat 3) 0 @ [- 1]" "b ! nat 3 = 0"
    by auto
  then show ?thesis by (auto simp: numeral_3_eq_3)
qed

subsection \<open>C6: without snadders the expected rolls decrease towards the end\<close>

text \<open>
  Claim C6.  On a board of size \<open>sz \<ge> 1\<close> without snadders, with a die of \<open>d \<ge> 1\<close> faces
  and overshooting that wins (\<open>exact\<close> false), the system has a solution, and every
  solution \<open>e\<close> has \<open>e[sz] = 0\<close> and \<open>e[i] > e[i + 1]\<close> for every \<open>i\<close> of \<open>0..sz - 1\<close>.
\<close>

theorem expected_rolls_decrease:
  assumes "1 \<le> sz" "1 \<le> d" "snadders = None \<or> snadders = Some []"
  shows "\<exists>P a b. get_probabilities sz snadders d transitive False = Some (Inr P)
           \<and> make_matrices P sz = Inr (a, b)
           \<and> (\<exists>e. is_solution a b e)
           \<and> (\<forall>e. is_solution a b e \<longrightarrow>
                 e ! nat sz = 0 \<and> (\<forall>i\<in>{0..<sz}. e ! nat (i + 1) < e ! nat i))"
proof -
  define P where "P = transition_table sz Map.empty d transitive False"
  let ?a = "map (\<lambda>i. map (coefficient P i) [0..sz]) [0..sz]"
  let ?b = "map (right_hand_side sz) [0..sz]"
  from assms(1) have sz: "0 \<le> sz" by simp
  note sys = no_snadders_system[OF sz assms(3) P_def]
  have "\<exists>e. is_solution ?a ?b e"
    using expected_rolls_solution[OF sz P_def] by blast
  moreover have "e ! nat sz = 0 \<and> (\<forall>i\<in>{0..<sz}. e ! nat (i + 1) < e ! nat i)"
    if sol: "is_solution ?a ?b e" for e
  proof -
    let ?f = "\<lambda>j. e ! nat j"
    from sol have e0: "?f sz = 0"
      and rec: "\<forall>i\<in>{0..<sz}. ?f i = 1 + (\<Sum>r\<leftarrow>[1..d]. ?f (min (i + r) sz) / of_int d)"
      unfolding no_snadders_solution_iff[OF sz P_def] by simp_all
    have "?f (i + 1) < ?f i" if "i \<in> {0..<sz}" for i
      using that rec by (intro rolls_decrease[where f = ?f, OF assms(2) e0]) simp_all
    with e0 show ?thesis by blast
  qed
  ultimately show ?thesis using sys by blast
qed

text \<open>
  The theorem on the board of size 2 with a die of two faces: the solution is
  \<open>[3/2, 1, 0]\<close>.
\<close>

theorem expected_rolls_decrease_witness:
  "\<exists>P a b. get_probabilities 2 None 2 False False = Some (Inr P)
     \<and> make_matrices P 2 = Inr (a, b)
     \<and> is_solution a b [3 / 2, 1, 0]
     \<and> [3 / 2, 1, 0 :: rat] ! nat 2 = 0
     \<and> [3 / 2, 1, 0 :: rat] ! nat (1 + 1) < [3 / 2, 1, 0] ! nat 1
     \<and> [3 / 2, 1, 0 :: rat] ! nat (0 + 1) < [3 / 2, 1, 0] ! nat 0"
proof -
  from expected_rolls_decrease[of 2 2 None False]
  obtain P a b where gp: "get_probabilities 2 None 2 False False = Some (Inr P)"
    and mm: "make_matrices P 2 = Inr (a, b)"
    and dec: "\<forall>e. is_solution a b e \<longrightarrow>
                 e ! nat 2 = 0 \<and> (\<forall>i\<in>{0..<2}. e ! nat (i + 1) < e ! nat i)"
    by auto
  have "make_matrices (transition_table 2 (snadders_or_empty None) 2 False False) 2 =
      Inr ([[- 1, 1 / 2, 1 / 2], [0, - 1, 1], [0, 0, - 1]], [- 1, - 1, 0])"
    by code_simp
  with mm have ab: "a = [[- 1, 1 / 2, 1 / 2], [0, - 1, 1], [0, 0, - 1]]" "b = [- 1, - 1, 0]"
    unfolding returned_table_unique[OF gp] by simp_all
  have "is_solution [[- 1, 1 / 2, 1 / 2], [0, - 1, 1], [0, 0, - 1]] [- 1, - 1, 0] [3 / 2, 1, 0]"
    by code_simp
  then have sol: "is_solution a b [3 / 2, 1, 0]" unfolding ab .
  with dec have "[3 / 2, 1, 0 :: rat] ! nat 2 = 0"
    and all: "\<forall>i\<in>{0..<2}. [3 / 2, 1, 0 :: rat] ! nat (i + 1) < [3 / 2, 1, 0] ! nat i"
    by blast+
  moreover from all have "[3 / 2, 1, 0 :: rat] ! nat (1 + 1) < [3 / 2, 1, 0] ! nat 1"
    by (rule bspec) simp
  moreover from all have "[3 / 2, 1, 0 :: rat] ! nat (0 + 1) < [3 / 2, 1, 0] ! nat 0"
    by (rule bspec) simp
  ultimately show ?thesis using gp mm sol by blast
qed

subsection \<open>C5: a die of one face\<close>

text \<open>
  Claim C5.  On a board of size \<open>sz \<ge> 1\<close> without snadders and with a die of one face the
  system that \<^verbatim>\<open>solve\<close> builds has a solution, and when the linear solver answers with
  a solution of that system, \<^verbatim>\<open>solve\<close> returns exactly \<open>sz\<close>.
\<close>

theorem solve_single_face:
  assumes "1 \<le> sz" "snadders = None \<or> snadders = Some []"
  shows "\<exists>a b. linear_system sz snadders 1 = Some (Inr (a, b))
           \<and> (\<exists>e. is_solution a b e)
           \<and> (solves linalg_solve a b \<longrightarrow>
                 solve linalg_solve sz snadders 1 = Some (Inr (of_int sz)))"
proof -
  define P where "P = transition_table sz Map.empty 1 False False"
  let ?a = "map (\<lambda>i. map (coefficient P i) [0..sz]) [0..sz]"
  let ?b = "map (right_hand_side sz) [0..sz]"
  from assms(1) have sz: "0 \<le> sz" by simp
  note sys = no_snadders_system[OF sz assms(2) P_def]
  have ls: "linear_system sz snadders 1 = Some (Inr (?a, ?b))"
    by (simp add: linear_system_def default_transitive_def default_exact_def sys)
  have ex: "\<exists>e. is_solution ?a ?b e"
    using expected_rolls_solution[OF sz P_def] by blast
  have "solve linalg_solve sz snadders 1 = Some (Inr (of_int sz))"
    if "solves linalg_solve ?a ?b"
  proof -
    from that obtain e where e: "linalg_solve ?a ?b = Inr e" "is_solution ?a ?b e"
      by (auto simp: solves_def split: sum.splits)
    let ?f = "\<lambda>j. e ! nat j"
    from e(2) have len: "length e = nat (sz + 1)" and e0: "?f sz = 0"
      and rec: "\<forall>i\<in>{0..<sz}. ?f i = 1 + (\<Sum>r\<leftarrow>[1..1]. ?f (min (i + r) sz) / of_int 1)"
      unfolding no_snadders_solution_iff[OF sz P_def] by simp_all
    have rec1: "?f i = 1 + ?f (i + 1)" if "0 \<le> i" "i < sz" for i
    proof -
      from that have "min (i + 1) sz = i + 1" by simp
      with rec that show ?thesis by (simp add: upto_rec1)
    qed
    have "?f (sz - int (nat sz)) = of_nat (nat sz)"
      using sz by (intro single_face_count[where f = ?f, OF e0 rec1]) simp_all
    with sz have first: "e ! 0 = of_int sz" by simp
    from len sz obtain x xs where "e = x # xs" by (cases e) auto
    with first have "first_entry e = Inr (of_int sz)" by (simp add: first_entry_def)
    with e(1) ls show ?thesis by (simp add: solve_def)
  qed
  with ls ex show ?thesis by blast
qed

text \<open>
  The theorem on the board of size 2, with a solver that answers \<open>[2, 1, 0]\<close>.
\<close>

theorem solve_single_face_witness:
  "solves (\<lambda>a b. Inr [2, 1, 0]) [[- 1, 1, 0], [0, - 1, 1], [0, 0, - 1]] [- 1, - 1, 0]
   \<and> linear_system 2 None 1 = Some (Inr ([[- 1, 1, 0], [0, - 1, 1], [0, 0, - 1]], [- 1, - 1, 0]))
   \<and> solve (\<lambda>a b. Inr [2, 1, 0]) 2 None 1 = Some (Inr 2)"
proof -
  from solve_single_face[of 2 None "\<lambda>a b. Inr [2, 1, 0]"]
  obtain a b where ls: "linear_system 2 None 1 = Some (Inr (a, b))"
    and imp: "solves (\<lambda>a b. Inr [2, 1, 0]) a b \<longrightarrow>
                solve (\<lambda>a b. Inr [2, 1, 0]) 2 None 1 = Some (Inr (of_int 2))"
    by auto
  have ev: "linear_system 2 None 1 =
      Some (Inr ([[- 1, 1, 0], [0, - 1, 1], [0, 0, - 1]], [- 1, - 1, 0]))"
    by code_simp
  with ls have ab: "a = [[- 1, 1, 0], [0, - 1, 1], [0, 0, - 1]]" "b = [- 1, - 1, 0]"
    by simp_all
  have sv: "solves (\<lambda>a b. Inr [2, 1, 0]) [[- 1, 1, 0], [0, - 1, 1], [0, 0, - 1]] [- 1, - 1, 0]"
    by code_simp
  with imp have "solve (\<lambda>a b. Inr [2, 1, 0]) 2 None 1 = Some (Inr (of_int 2))"
    unfolding ab by blast
  with sv ev show ?thesis by simp
qed

subsection \<open>C10: \<^verbatim>\<open>solve\<close> leaves both flags off\<close>

text \<open>
  Claim C10.  \<^verbatim>\<open>solve\<close> is the pipeline with the transitive flag and the exact flag
  both false: the table of \<^verbatim>\<open>get_probabilities\<close> with the two flags at \<open>False\<close>, the
  system of \<^verbatim>\<open>make_matrices\<close>, the linear solver, and the entry 0 of its answer; an
  exception or a call that does not return is passed on unchanged.
\<close>

theorem solve_pipeline:
  "solve linalg_solve board_size snadders dice_size =
    (case get_probabilities board_size snadders dice_size False False of
       None \<Rightarrow> None
     | Some (Inl err) \<Rightarrow> Some (Inl err)
     | Some (Inr probs) \<Rightarrow>
         Some (case make_matrices probs board_size of
                 Inl err \<Rightarrow> Inl err
               | Inr (a, b) \<Rightarrow>
                   (case linalg_solve a b of
                      Inl err \<Rightarrow> Inl err
                    | Inr solution \<Rightarrow> first_entry solution)))"
  by (simp add: solve_def linear_system_def default_transitive_def default_exact_def
      split: option.splits sum.splits prod.splits)

text \<open>
  The pipeline on the board of size 2 with a die of two faces, with a solver that answers
  \<open>[3/2, 1, 0]\<close>.
\<close>

theorem solve_pipeline_witness:
  "solve (\<lambda>a b. Inr [3 / 2, 1, 0]) 2 None 2 = Some (Inr (3 / 2))"
  unfolding solve_pipeline by code_simp

end
